theory Spec2Isabelle
  imports Complex_Main "HOL-Library.Word" "HOL-Library.Char_ord" "HOL-Library.List_Lexorder"
begin

unbundle bit_operations_syntax

section \<open>The identifier as a 16-byte array (ulid_struct.hh)\<close>

text \<open>
  Machine types of the C++ source.  \<open>int\<close> is the 32-bit type every small operand
  is promoted to before \<open>&\<close>, \<open>|\<close>, \<open><<\<close> and \<open>>>\<close>; \<open>char\<close> is
  HOL's 8-bit \<open>char\<close>.  A \<open>uint8_t\<close> promoted to \<open>int\<close> is never negative, so
  \<open>>>\<close> on such an operand is \<open>drop_bit\<close>; the signed \<open>int64_t\<close> timestamp is
  shifted with \<open>signed_drop_bit\<close>.
\<close>

type_synonym uint8_t = "8 word"
type_synonym cint = "32 word"
type_synonym int64_t = "64 word"
type_synonym uint64_t = "64 word"

text \<open>\<open>struct ULID { uint8_t data[16]; }\<close>.  The array has 16 cells by its type; a
  value of the record is an identifier when \<open>length (data u) = 16\<close>.\<close>

record ULID =
  data :: "uint8_t list"

definition wf_ULID :: "ULID \<Rightarrow> bool" where
  "wf_ULID ulid = (length (data ulid) = 16)"

text \<open>The default constructor \<open>ULID()\<close>: every cell is set to 0.\<close>

definition ULID_zero :: ULID where
  "ULID_zero = \<lparr>data = [0, 0, 0, 0, 0, 0, 0, 0, 0, 0, 0, 0, 0, 0, 0, 0]\<rparr>"

text \<open>\<open>EncodeTimestamp(int64_t timestamp, ULID& ulid)\<close>.\<close>

definition EncodeTimestamp :: "int64_t \<Rightarrow> ULID \<Rightarrow> ULID" where
  "EncodeTimestamp timestamp ulid =
     ulid\<lparr>data := (data ulid)
       [0 := ucast (signed_drop_bit 40 timestamp),
        1 := ucast (signed_drop_bit 32 timestamp),
        2 := ucast (signed_drop_bit 24 timestamp),
        3 := ucast (signed_drop_bit 16 timestamp),
        4 := ucast (signed_drop_bit 8 timestamp),
        5 := ucast timestamp]\<rparr>"

text \<open>\<open>EncodeEntropy(const std::function<uint8_t()>& rng, ULID& ulid)\<close>.  The byte
  source is a callable with hidden state: a call takes the state and returns the byte
  and the next state.  The ten statements run in order, each making one call.\<close>

definition EncodeEntropy :: "('s \<Rightarrow> uint8_t \<times> 's) \<Rightarrow> 's \<Rightarrow> ULID \<Rightarrow> ULID \<times> 's" where
  "EncodeEntropy rng s0 ulid =
     (let (b6, s1) = rng s0;
          (b7, s2) = rng s1;
          (b8, s3) = rng s2;
          (b9, s4) = rng s3;
          (b10, s5) = rng s4;
          (b11, s6) = rng s5;
          (b12, s7) = rng s6;
          (b13, s8) = rng s7;
          (b14, s9) = rng s8;
          (b15, s10) = rng s9
      in (ulid\<lparr>data := (data ulid)
            [6 := b6, 7 := b7, 8 := b8, 9 := b9, 10 := b10,
             11 := b11, 12 := b12, 13 := b13, 14 := b14, 15 := b15]\<rparr>, s10))"

text \<open>Crockford's Base32: \<open>static const char Encoding[33]\<close>.\<close>

definition Encoding :: string where
  "Encoding = ''0123456789ABCDEFGHJKMNPQRSTVWXYZ''"

text \<open>\<open>MarshalTo(const ULID& ulid, char dst[26])\<close> is \<open>dst[k] = Encoding[e\<^sub>k]\<close> for 26
  index expressions \<open>e\<^sub>k\<close> of type \<open>int\<close>.  \<open>MarshalTo_index\<close> lists the 26 index
  expressions in the order of the source; \<open>MarshalTo\<close> reads the table at each.\<close>

definition MarshalTo_index :: "ULID \<Rightarrow> cint list" where
  "MarshalTo_index ulid =
     (let d = (\<lambda>i. (ucast (data ulid ! i) :: cint)) in
      [drop_bit 5 (d 0 AND 224),
       d 0 AND 31,
       drop_bit 3 (d 1 AND 248),
       push_bit 2 (d 1 AND 7) OR drop_bit 6 (d 2 AND 192),
       drop_bit 1 (d 2 AND 62),
       push_bit 4 (d 2 AND 1) OR drop_bit 4 (d 3 AND 240),
       push_bit 1 (d 3 AND 15) OR drop_bit 7 (d 4 AND 128),
       drop_bit 2 (d 4 AND 124),
       push_bit 3 (d 4 AND 3) OR drop_bit 5 (d 5 AND 224),
       d 5 AND 31,
       drop_bit 3 (d 6 AND 248),
       push_bit 2 (d 6 AND 7) OR drop_bit 6 (d 7 AND 192),
       drop_bit 1 (d 7 AND 62),
       push_bit 4 (d 7 AND 1) OR drop_bit 4 (d 8 AND 240),
       push_bit 1 (d 8 AND 15) OR drop_bit 7 (d 9 AND 128),
       drop_bit 2 (d 9 AND 124),
       push_bit 3 (d 9 AND 3) OR drop_bit 5 (d 10 AND 224),
       d 10 AND 31,
       drop_bit 3 (d 11 AND 248),
       push_bit 2 (d 11 AND 7) OR drop_bit 6 (d 12 AND 192),
       drop_bit 1 (d 12 AND 62),
       push_bit 4 (d 12 AND 1) OR drop_bit 4 (d 13 AND 240),
       push_bit 1 (d 13 AND 15) OR drop_bit 7 (d 14 AND 128),
       drop_bit 2 (d 14 AND 124),
       push_bit 3 (d 14 AND 3) OR drop_bit 5 (d 15 AND 224),
       d 15 AND 31])"

definition MarshalTo :: "ULID \<Rightarrow> string" where
  "MarshalTo ulid = map (\<lambda>e. Encoding ! unat e) (MarshalTo_index ulid)"

text \<open>\<open>Marshal\<close> copies the 26 characters into a \<open>std::string\<close>.\<close>

definition Marshal :: "ULID \<Rightarrow> string" where
  "Marshal ulid = MarshalTo ulid"

text \<open>\<open>MarshalBinaryTo\<close> / \<open>MarshalBinary\<close>: the 16 cells copied in order.\<close>

definition MarshalBinary :: "ULID \<Rightarrow> uint8_t list" where
  "MarshalBinary ulid =
     [data ulid ! 0, data ulid ! 1, data ulid ! 2, data ulid ! 3,
      data ulid ! 4, data ulid ! 5, data ulid ! 6, data ulid ! 7,
      data ulid ! 8, data ulid ! 9, data ulid ! 10, data ulid ! 11,
      data ulid ! 12, data ulid ! 13, data ulid ! 14, data ulid ! 15]"

text \<open>\<open>static const uint8_t dec[256]\<close>: the decode table, \<open>0xFF\<close> marking an invalid
  character.\<close>

definition dec :: "uint8_t list" where
  "dec =
    [
     0xFF, 0xFF, 0xFF, 0xFF, 0xFF, 0xFF, 0xFF, 0xFF,
     0xFF, 0xFF, 0xFF, 0xFF, 0xFF, 0xFF, 0xFF, 0xFF,
     0xFF, 0xFF, 0xFF, 0xFF, 0xFF, 0xFF, 0xFF, 0xFF,
     0xFF, 0xFF, 0xFF, 0xFF, 0xFF, 0xFF, 0xFF, 0xFF,
     0xFF, 0xFF, 0xFF, 0xFF, 0xFF, 0xFF, 0xFF, 0xFF,
     0xFF, 0xFF, 0xFF, 0xFF, 0xFF, 0xFF, 0xFF, 0xFF,
     0x00, 0x01, 0x02, 0x03, 0x04, 0x05, 0x06, 0x07,
     0x08, 0x09, 0xFF, 0xFF, 0xFF, 0xFF, 0xFF, 0xFF,
     0xFF, 0x0A, 0x0B, 0x0C, 0x0D, 0x0E, 0x0F, 0x10,
     0x11, 0xFF, 0x12, 0x13, 0xFF, 0x14, 0x15, 0xFF,
     0x16, 0x17, 0x18, 0x19, 0x1A, 0xFF, 0x1B, 0x1C,
     0x1D, 0x1E, 0x1F, 0xFF, 0xFF, 0xFF, 0xFF, 0xFF,
     0xFF, 0xFF, 0xFF, 0xFF, 0xFF, 0xFF, 0xFF, 0xFF,
     0xFF, 0xFF, 0xFF, 0xFF, 0xFF, 0xFF, 0xFF, 0xFF,
     0xFF, 0xFF, 0xFF, 0xFF, 0xFF, 0xFF, 0xFF, 0xFF,
     0xFF, 0xFF, 0xFF, 0xFF, 0xFF, 0xFF, 0xFF, 0xFF,
     0xFF, 0xFF, 0xFF, 0xFF, 0xFF, 0xFF, 0xFF, 0xFF,
     0xFF, 0xFF, 0xFF, 0xFF, 0xFF, 0xFF, 0xFF, 0xFF,
     0xFF, 0xFF, 0xFF, 0xFF, 0xFF, 0xFF, 0xFF, 0xFF,
     0xFF, 0xFF, 0xFF, 0xFF, 0xFF, 0xFF, 0xFF, 0xFF,
     0xFF, 0xFF, 0xFF, 0xFF, 0xFF, 0xFF, 0xFF, 0xFF,
     0xFF, 0xFF, 0xFF, 0xFF, 0xFF, 0xFF, 0xFF, 0xFF,
     0xFF, 0xFF, 0xFF, 0xFF, 0xFF, 0xFF, 0xFF, 0xFF,
     0xFF, 0xFF, 0xFF, 0xFF, 0xFF, 0xFF, 0xFF, 0xFF,
     0xFF, 0xFF, 0xFF, 0xFF, 0xFF, 0xFF, 0xFF, 0xFF,
     0xFF, 0xFF, 0xFF, 0xFF, 0xFF, 0xFF, 0xFF, 0xFF,
     0xFF, 0xFF, 0xFF, 0xFF, 0xFF, 0xFF, 0xFF, 0xFF,
     0xFF, 0xFF, 0xFF, 0xFF, 0xFF, 0xFF, 0xFF, 0xFF,
     0xFF, 0xFF, 0xFF, 0xFF, 0xFF, 0xFF, 0xFF, 0xFF,
     0xFF, 0xFF, 0xFF, 0xFF, 0xFF, 0xFF, 0xFF, 0xFF,
     0xFF, 0xFF, 0xFF, 0xFF, 0xFF, 0xFF, 0xFF, 0xFF,
     0xFF, 0xFF, 0xFF, 0xFF, 0xFF, 0xFF, 0xFF, 0xFF]"

text \<open>\<open>dec[int(str[i])]\<close>, promoted to \<open>int\<close> by the operators applied to it.  The
  table is read at the character's code 0..255 (where \<open>char\<close> is signed, a code above
  127 is a negative index outside the table; the statements below that depend on the
  value read are about 7-bit characters).\<close>

definition dec_at :: "string \<Rightarrow> nat \<Rightarrow> cint" where
  "dec_at str i = ucast (dec ! of_char (str ! i))"

text \<open>\<open>UnmarshalFrom(const char str[26], ULID& ulid)\<close>: each right-hand side is an
  \<open>int\<close>, stored into a \<open>uint8_t\<close> cell (the low 8 bits).\<close>

definition UnmarshalFrom :: "string \<Rightarrow> ULID \<Rightarrow> ULID" where
  "UnmarshalFrom str ulid =
     (let c = dec_at str in
      ulid\<lparr>data := (data ulid)
       [0 := ucast (push_bit 5 (c 0) OR c 1),
        1 := ucast (push_bit 3 (c 2) OR drop_bit 2 (c 3)),
        2 := ucast (push_bit 6 (c 3) OR push_bit 1 (c 4) OR drop_bit 4 (c 5)),
        3 := ucast (push_bit 4 (c 5) OR drop_bit 1 (c 6)),
        4 := ucast (push_bit 7 (c 6) OR push_bit 2 (c 7) OR drop_bit 3 (c 8)),
        5 := ucast (push_bit 5 (c 8) OR c 9),
        6 := ucast (push_bit 3 (c 10) OR drop_bit 2 (c 11)),
        7 := ucast (push_bit 6 (c 11) OR push_bit 1 (c 12) OR drop_bit 4 (c 13)),
        8 := ucast (push_bit 4 (c 13) OR drop_bit 1 (c 14)),
        9 := ucast (push_bit 7 (c 14) OR push_bit 2 (c 15) OR drop_bit 3 (c 16)),
        10 := ucast (push_bit 5 (c 16) OR c 17),
        11 := ucast (push_bit 3 (c 18) OR drop_bit 2 (c 19)),
        12 := ucast (push_bit 6 (c 19) OR push_bit 1 (c 20) OR drop_bit 4 (c 21)),
        13 := ucast (push_bit 4 (c 21) OR drop_bit 1 (c 22)),
        14 := ucast (push_bit 7 (c 22) OR push_bit 2 (c 23) OR drop_bit 3 (c 24)),
        15 := ucast (push_bit 5 (c 24) OR c 25)]\<rparr>)"

text \<open>\<open>Unmarshal(const std::string& str)\<close>: a default-constructed value, filled.\<close>

definition Unmarshal :: "string \<Rightarrow> ULID" where
  "Unmarshal str = UnmarshalFrom str ULID_zero"

text \<open>\<open>UnmarshalBinaryFrom\<close> / \<open>UnmarshalBinary\<close>.\<close>

definition UnmarshalBinaryFrom :: "uint8_t list \<Rightarrow> ULID \<Rightarrow> ULID" where
  "UnmarshalBinaryFrom b ulid =
     ulid\<lparr>data := (data ulid)
       [0 := b ! 0, 1 := b ! 1, 2 := b ! 2, 3 := b ! 3, 4 := b ! 4, 5 := b ! 5,
        6 := b ! 6, 7 := b ! 7, 8 := b ! 8, 9 := b ! 9, 10 := b ! 10,
        11 := b ! 11, 12 := b ! 12, 13 := b ! 13, 14 := b ! 14, 15 := b ! 15]\<rparr>"

definition UnmarshalBinary :: "uint8_t list \<Rightarrow> ULID" where
  "UnmarshalBinary b = UnmarshalBinaryFrom b ULID_zero"

text \<open>\<open>CompareULIDs\<close>, the unrolled loop: at the first index where the cells differ
  the result is \<open>(a < b) * -2 + 1\<close>.\<close>

definition cmp_cell :: "uint8_t \<Rightarrow> uint8_t \<Rightarrow> int" where
  "cmp_cell a b = of_bool (a < b) * (- 2) + 1"

definition CompareULIDs :: "ULID \<Rightarrow> ULID \<Rightarrow> int" where
  "CompareULIDs ulid1 ulid2 =
     (let a = data ulid1; b = data ulid2 in
      if a ! 0 \<noteq> b ! 0 then cmp_cell (a ! 0) (b ! 0)
      else if a ! 1 \<noteq> b ! 1 then cmp_cell (a ! 1) (b ! 1)
      else if a ! 2 \<noteq> b ! 2 then cmp_cell (a ! 2) (b ! 2)
      else if a ! 3 \<noteq> b ! 3 then cmp_cell (a ! 3) (b ! 3)
      else if a ! 4 \<noteq> b ! 4 then cmp_cell (a ! 4) (b ! 4)
      else if a ! 5 \<noteq> b ! 5 then cmp_cell (a ! 5) (b ! 5)
      else if a ! 6 \<noteq> b ! 6 then cmp_cell (a ! 6) (b ! 6)
      else if a ! 7 \<noteq> b ! 7 then cmp_cell (a ! 7) (b ! 7)
      else if a ! 8 \<noteq> b ! 8 then cmp_cell (a ! 8) (b ! 8)
      else if a ! 9 \<noteq> b ! 9 then cmp_cell (a ! 9) (b ! 9)
      else if a ! 10 \<noteq> b ! 10 then cmp_cell (a ! 10) (b ! 10)
      else if a ! 11 \<noteq> b ! 11 then cmp_cell (a ! 11) (b ! 11)
      else if a ! 12 \<noteq> b ! 12 then cmp_cell (a ! 12) (b ! 12)
      else if a ! 13 \<noteq> b ! 13 then cmp_cell (a ! 13) (b ! 13)
      else if a ! 14 \<noteq> b ! 14 then cmp_cell (a ! 14) (b ! 14)
      else if a ! 15 \<noteq> b ! 15 then cmp_cell (a ! 15) (b ! 15)
      else 0)"

text \<open>\<open>Time\<close>: the millisecond count the returned time point is built from.  The
  accumulator is an \<open>int64_t\<close>; five shifts by 8 keep it below \<open>2^48\<close>.\<close>

definition Time :: "ULID \<Rightarrow> int64_t" where
  "Time ulid =
     (let d = (\<lambda>i. (ucast (data ulid ! i) :: int64_t));
          ans = 0 OR d 0;
          ans = push_bit 8 ans OR d 1;
          ans = push_bit 8 ans OR d 2;
          ans = push_bit 8 ans OR d 3;
          ans = push_bit 8 ans OR d 4;
          ans = push_bit 8 ans OR d 5
      in ans)"

section \<open>The identifier as a 128-bit scalar (ulid_uint128.hh)\<close>

text \<open>\<open>typedef __uint128_t ULID\<close>.  The functions carry the names of the array
  version; here they take the suffix \<open>_u128\<close>.  \<open>Encoding\<close> and \<open>dec\<close> are the same
  tables in both headers.  An \<open>int\<close> combined with the scalar is converted to the
  unsigned 128-bit type, which keeps the value modulo \<open>2^128\<close>: \<open>scast\<close>.\<close>

type_synonym uint128_t = "128 word"

definition EncodeTimestamp_u128 :: "int64_t \<Rightarrow> uint128_t \<Rightarrow> uint128_t" where
  "EncodeTimestamp_u128 timestamp ulid =
     (let b = (\<lambda>n. (ucast (ucast (signed_drop_bit n timestamp) :: uint8_t) :: uint128_t));
          t = b 40;
          t = push_bit 8 t OR b 32;
          t = push_bit 8 t OR b 24;
          t = push_bit 8 t OR b 16;
          t = push_bit 8 t OR b 8;
          t = push_bit 8 t OR ucast (ucast timestamp :: uint8_t);
          t = push_bit 80 t;
          mask = 1;
          mask = push_bit 80 mask;
          mask = mask - 1
      in t OR (ulid AND mask))"

definition EncodeEntropy_u128 ::
  "('s \<Rightarrow> uint8_t \<times> 's) \<Rightarrow> 's \<Rightarrow> uint128_t \<Rightarrow> uint128_t \<times> 's" where
  "EncodeEntropy_u128 rng s0 ulid =
     (let ulid = push_bit 80 (drop_bit 80 ulid);
          (r, s1) = rng s0; e = ucast r;
          (r, s2) = rng s1; e = push_bit 8 e OR ucast r;
          (r, s3) = rng s2; e = push_bit 8 e OR ucast r;
          (r, s4) = rng s3; e = push_bit 8 e OR ucast r;
          (r, s5) = rng s4; e = push_bit 8 e OR ucast r;
          (r, s6) = rng s5; e = push_bit 8 e OR ucast r;
          (r, s7) = rng s6; e = push_bit 8 e OR ucast r;
          (r, s8) = rng s7; e = push_bit 8 e OR ucast r;
          (r, s9) = rng s8; e = push_bit 8 e OR ucast r;
          (r, s10) = rng s9; e = push_bit 8 e OR ucast r
      in (ulid OR e, s10))"

definition MarshalTo_index_u128 :: "uint128_t \<Rightarrow> cint list" where
  "MarshalTo_index_u128 ulid =
     (let d = (\<lambda>n. (ucast (ucast (drop_bit n ulid) :: uint8_t) :: cint)) in
      [drop_bit 5 (d 120 AND 224),
       d 120 AND 31,
       drop_bit 3 (d 112 AND 248),
       push_bit 2 (d 112 AND 7) OR drop_bit 6 (d 104 AND 192),
       drop_bit 1 (d 104 AND 62),
       push_bit 4 (d 104 AND 1) OR drop_bit 4 (d 96 AND 240),
       push_bit 1 (d 96 AND 15) OR drop_bit 7 (d 88 AND 128),
       drop_bit 2 (d 88 AND 124),
       push_bit 3 (d 88 AND 3) OR drop_bit 5 (d 80 AND 224),
       d 80 AND 31,
       drop_bit 3 (d 72 AND 248),
       push_bit 2 (d 72 AND 7) OR drop_bit 6 (d 64 AND 192),
       drop_bit 1 (d 64 AND 62),
       push_bit 4 (d 64 AND 1) OR drop_bit 4 (d 56 AND 240),
       push_bit 1 (d 56 AND 15) OR drop_bit 7 (d 48 AND 128),
       drop_bit 2 (d 48 AND 124),
       push_bit 3 (d 48 AND 3) OR drop_bit 5 (d 40 AND 224),
       d 40 AND 31,
       drop_bit 3 (d 32 AND 248),
       push_bit 2 (d 32 AND 7) OR drop_bit 6 (d 24 AND 192),
       drop_bit 1 (d 24 AND 62),
       push_bit 4 (d 24 AND 1) OR drop_bit 4 (d 16 AND 240),
       push_bit 1 (d 16 AND 15) OR drop_bit 7 (d 8 AND 128),
       drop_bit 2 (d 8 AND 124),
       push_bit 3 (d 8 AND 3) OR drop_bit 5 (d 0 AND 224),
       d 0 AND 31])"

definition MarshalTo_u128 :: "uint128_t \<Rightarrow> string" where
  "MarshalTo_u128 ulid = map (\<lambda>e. Encoding ! unat e) (MarshalTo_index_u128 ulid)"

definition Marshal_u128 :: "uint128_t \<Rightarrow> string" where
  "Marshal_u128 ulid = MarshalTo_u128 ulid"

definition MarshalBinary_u128 :: "uint128_t \<Rightarrow> uint8_t list" where
  "MarshalBinary_u128 ulid =
     [ucast (drop_bit 120 ulid), ucast (drop_bit 112 ulid), ucast (drop_bit 104 ulid),
      ucast (drop_bit 96 ulid), ucast (drop_bit 88 ulid), ucast (drop_bit 80 ulid),
      ucast (drop_bit 72 ulid), ucast (drop_bit 64 ulid), ucast (drop_bit 56 ulid),
      ucast (drop_bit 48 ulid), ucast (drop_bit 40 ulid), ucast (drop_bit 32 ulid),
      ucast (drop_bit 24 ulid), ucast (drop_bit 16 ulid), ucast (drop_bit 8 ulid),
      ucast ulid]"

text \<open>\<open>UnmarshalFrom\<close> on the scalar: the \<open>int\<close> right-hand sides are OR-ed into the
  scalar whole, not cut to 8 bits first.\<close>

definition UnmarshalFrom_u128 :: "string \<Rightarrow> uint128_t" where
  "UnmarshalFrom_u128 str =
     (let c = dec_at str;
          ulid = scast (push_bit 5 (c 0) OR c 1);
          ulid = push_bit 8 ulid;
          ulid = ulid OR scast (push_bit 3 (c 2) OR drop_bit 2 (c 3));
          ulid = push_bit 8 ulid;
          ulid = ulid OR scast (push_bit 6 (c 3) OR push_bit 1 (c 4) OR drop_bit 4 (c 5));
          ulid = push_bit 8 ulid;
          ulid = ulid OR scast (push_bit 4 (c 5) OR drop_bit 1 (c 6));
          ulid = push_bit 8 ulid;
          ulid = ulid OR scast (push_bit 7 (c 6) OR push_bit 2 (c 7) OR drop_bit 3 (c 8));
          ulid = push_bit 8 ulid;
          ulid = ulid OR scast (push_bit 5 (c 8) OR c 9);
          ulid = push_bit 8 ulid;
          ulid = ulid OR scast (push_bit 3 (c 10) OR drop_bit 2 (c 11));
          ulid = push_bit 8 ulid;
          ulid = ulid OR scast (push_bit 6 (c 11) OR push_bit 1 (c 12) OR drop_bit 4 (c 13));
          ulid = push_bit 8 ulid;
          ulid = ulid OR scast (push_bit 4 (c 13) OR drop_bit 1 (c 14));
          ulid = push_bit 8 ulid;
          ulid = ulid OR scast (push_bit 7 (c 14) OR push_bit 2 (c 15) OR drop_bit 3 (c 16));
          ulid = push_bit 8 ulid;
          ulid = ulid OR scast (push_bit 5 (c 16) OR c 17);
          ulid = push_bit 8 ulid;
          ulid = ulid OR scast (push_bit 3 (c 18) OR drop_bit 2 (c 19));
          ulid = push_bit 8 ulid;
          ulid = ulid OR scast (push_bit 6 (c 19) OR push_bit 1 (c 20) OR drop_bit 4 (c 21));
          ulid = push_bit 8 ulid;
          ulid = ulid OR scast (push_bit 4 (c 21) OR drop_bit 1 (c 22));
          ulid = push_bit 8 ulid;
          ulid = ulid OR scast (push_bit 7 (c 22) OR push_bit 2 (c 23) OR drop_bit 3 (c 24));
          ulid = push_bit 8 ulid;
          ulid = ulid OR scast (push_bit 5 (c 24) OR c 25)
      in ulid)"

definition Unmarshal_u128 :: "string \<Rightarrow> uint128_t" where
  "Unmarshal_u128 str = UnmarshalFrom_u128 str"

definition UnmarshalBinaryFrom_u128 :: "uint8_t list \<Rightarrow> uint128_t" where
  "UnmarshalBinaryFrom_u128 b =
     (let ulid = ucast (b ! 0);
          ulid = push_bit 8 ulid; ulid = ulid OR ucast (b ! 1);
          ulid = push_bit 8 ulid; ulid = ulid OR ucast (b ! 2);
          ulid = push_bit 8 ulid; ulid = ulid OR ucast (b ! 3);
          ulid = push_bit 8 ulid; ulid = ulid OR ucast (b ! 4);
          ulid = push_bit 8 ulid; ulid = ulid OR ucast (b ! 5);
          ulid = push_bit 8 ulid; ulid = ulid OR ucast (b ! 6);
          ulid = push_bit 8 ulid; ulid = ulid OR ucast (b ! 7);
          ulid = push_bit 8 ulid; ulid = ulid OR ucast (b ! 8);
          ulid = push_bit 8 ulid; ulid = ulid OR ucast (b ! 9);
          ulid = push_bit 8 ulid; ulid = ulid OR ucast (b ! 10);
          ulid = push_bit 8 ulid; ulid = ulid OR ucast (b ! 11);
          ulid = push_bit 8 ulid; ulid = ulid OR ucast (b ! 12);
          ulid = push_bit 8 ulid; ulid = ulid OR ucast (b ! 13);
          ulid = push_bit 8 ulid; ulid = ulid OR ucast (b ! 14);
          ulid = push_bit 8 ulid; ulid = ulid OR ucast (b ! 15)
      in ulid)"

definition UnmarshalBinary_u128 :: "uint8_t list \<Rightarrow> uint128_t" where
  "UnmarshalBinary_u128 b = UnmarshalBinaryFrom_u128 b"

text \<open>\<open>return -2 * (ulid1 < ulid2) - 1 * (ulid1 == ulid2) + 1;\<close>\<close>

definition CompareULIDs_u128 :: "uint128_t \<Rightarrow> uint128_t \<Rightarrow> int" where
  "CompareULIDs_u128 ulid1 ulid2 =
     - 2 * of_bool (ulid1 < ulid2) - 1 * of_bool (ulid1 = ulid2) + 1"

definition Time_u128 :: "uint128_t \<Rightarrow> int64_t" where
  "Time_u128 ulid =
     (let d = (\<lambda>n. (ucast (ucast (drop_bit n ulid) :: uint8_t) :: int64_t));
          ans = 0 OR d 120;
          ans = push_bit 8 ans OR d 112;
          ans = push_bit 8 ans OR d 104;
          ans = push_bit 8 ans OR d 96;
          ans = push_bit 8 ans OR d 88;
          ans = push_bit 8 ans OR d 80
      in ans)"

section \<open>The C interface (ulid_wrapper.cpp)\<close>

text \<open>\<open>_cpp_bytes_to_timestamp(const uint8_t b[16])\<close>.\<close>

definition cpp_bytes_to_timestamp :: "uint8_t list \<Rightarrow> uint64_t" where
  "cpp_bytes_to_timestamp b =
     (let timestamp = 0;
          timestamp = timestamp OR push_bit 40 (ucast (b ! 0));
          timestamp = timestamp OR push_bit 32 (ucast (b ! 1));
          timestamp = timestamp OR push_bit 24 (ucast (b ! 2));
          timestamp = timestamp OR push_bit 16 (ucast (b ! 3));
          timestamp = timestamp OR push_bit 8 (ucast (b ! 4));
          timestamp = timestamp OR ucast (b ! 5)
      in timestamp)"

text \<open>\<open>_cpp_ulid_to_bytes\<close> and \<open>_cpp_bytes_to_ulid\<close>, over the array version.\<close>

definition cpp_ulid_to_bytes :: "string \<Rightarrow> uint8_t list" where
  "cpp_ulid_to_bytes ulid_string = MarshalBinary (UnmarshalFrom ulid_string ULID_zero)"

definition cpp_bytes_to_ulid :: "uint8_t list \<Rightarrow> string" where
  "cpp_bytes_to_ulid b = MarshalTo (UnmarshalBinaryFrom b ULID_zero)"

text \<open>\<open>static_cast<int64_t>(v)\<close> of a \<open>double\<close>: the fractional part is discarded
  (truncation towards zero); when the truncated value is not an \<open>int64_t\<close> the
  behaviour is undefined, \<open>None\<close> here.  A finite \<open>double\<close> is the real number it
  stands for.\<close>

definition double_to_int64 :: "real \<Rightarrow> int64_t option" where
  "double_to_int64 v =
     (let k = (if v < 0 then \<lceil>v\<rceil> else \<lfloor>v\<rfloor>) in
      if - (2 ^ 63) \<le> k \<and> k < 2 ^ 63 then Some (word_of_int k) else None)"

text \<open>\<open>_cpp_ulid_at_time_bytes(double epoch_time, uint8_t dst[16])\<close>.  The product
  \<open>epoch_time*1000\<close> is a \<open>double\<close> product: the real product rounded to a
  \<open>double\<close> by \<open>rnd\<close>, a parameter.  \<open>EncodeEntropyRand\<close> is \<open>EncodeEntropy\<close> over
  the byte source \<open>(std::rand() * 255ull) / RAND_MAX\<close>, the parameter \<open>rng\<close>.
  \<open>_cpp_ulid_at_time\<close> differs in the last step only (\<open>MarshalTo\<close>).\<close>

definition cpp_ulid_at_time_bytes ::
  "(real \<Rightarrow> real) \<Rightarrow> ('s \<Rightarrow> uint8_t \<times> 's) \<Rightarrow> 's \<Rightarrow> real \<Rightarrow> (uint8_t list \<times> 's) option" where
  "cpp_ulid_at_time_bytes rnd rng s epoch_time =
     (case double_to_int64 (rnd (epoch_time * 1000)) of
        None \<Rightarrow> None
      | Some timestamp \<Rightarrow>
          (let ulid = EncodeTimestamp timestamp ULID_zero;
               (ulid, s') = EncodeEntropy rng s ulid
           in Some (MarshalBinary ulid, s')))"

definition cpp_ulid_at_time ::
  "(real \<Rightarrow> real) \<Rightarrow> ('s \<Rightarrow> uint8_t \<times> 's) \<Rightarrow> 's \<Rightarrow> real \<Rightarrow> (string \<times> 's) option" where
  "cpp_ulid_at_time rnd rng s epoch_time =
     (case double_to_int64 (rnd (epoch_time * 1000)) of
        None \<Rightarrow> None
      | Some timestamp \<Rightarrow>
          (let ulid = EncodeTimestamp timestamp ULID_zero;
               (ulid, s') = EncodeEntropy rng s ulid
           in Some (MarshalTo ulid, s')))"

section \<open>Auxiliary notions for the proofs\<close>

text \<open>The nine 5-bit windows \<open>MarshalTo\<close> cuts out of one byte or two adjacent bytes,
  named by the number of bits taken from each.\<close>

definition w_hi3 :: "uint8_t \<Rightarrow> cint" where
  "w_hi3 a = drop_bit 5 (ucast a AND 224)"

definition w_lo5 :: "uint8_t \<Rightarrow> cint" where
  "w_lo5 a = ucast a AND 31"

definition w_hi5 :: "uint8_t \<Rightarrow> cint" where
  "w_hi5 a = drop_bit 3 (ucast a AND 248)"

definition w_3_2 :: "uint8_t \<Rightarrow> uint8_t \<Rightarrow> cint" where
  "w_3_2 a b = push_bit 2 (ucast a AND 7) OR drop_bit 6 (ucast b AND 192)"

definition w_mid1 :: "uint8_t \<Rightarrow> cint" where
  "w_mid1 a = drop_bit 1 (ucast a AND 62)"

definition w_1_4 :: "uint8_t \<Rightarrow> uint8_t \<Rightarrow> cint" where
  "w_1_4 a b = push_bit 4 (ucast a AND 1) OR drop_bit 4 (ucast b AND 240)"

definition w_4_1 :: "uint8_t \<Rightarrow> uint8_t \<Rightarrow> cint" where
  "w_4_1 a b = push_bit 1 (ucast a AND 15) OR drop_bit 7 (ucast b AND 128)"

definition w_mid2 :: "uint8_t \<Rightarrow> cint" where
  "w_mid2 a = drop_bit 2 (ucast a AND 124)"

definition w_2_3 :: "uint8_t \<Rightarrow> uint8_t \<Rightarrow> cint" where
  "w_2_3 a b = push_bit 3 (ucast a AND 3) OR drop_bit 5 (ucast b AND 224)"

definition windows :: "uint8_t list \<Rightarrow> cint list" where
  "windows d =
     [w_hi3 (d ! 0), w_lo5 (d ! 0), w_hi5 (d ! 1), w_3_2 (d ! 1) (d ! 2), w_mid1 (d ! 2),
      w_1_4 (d ! 2) (d ! 3), w_4_1 (d ! 3) (d ! 4), w_mid2 (d ! 4), w_2_3 (d ! 4) (d ! 5),
      w_lo5 (d ! 5), w_hi5 (d ! 6), w_3_2 (d ! 6) (d ! 7), w_mid1 (d ! 7),
      w_1_4 (d ! 7) (d ! 8), w_4_1 (d ! 8) (d ! 9), w_mid2 (d ! 9), w_2_3 (d ! 9) (d ! 10),
      w_lo5 (d ! 10), w_hi5 (d ! 11), w_3_2 (d ! 11) (d ! 12), w_mid1 (d ! 12),
      w_1_4 (d ! 12) (d ! 13), w_4_1 (d ! 13) (d ! 14), w_mid2 (d ! 14),
      w_2_3 (d ! 14) (d ! 15), w_lo5 (d ! 15)]"

text \<open>A text is valid when it has 26 characters, all of the alphabet.\<close>

definition valid_text :: "string \<Rightarrow> bool" where
  "valid_text str = (length str = 26 \<and> list_all (\<lambda>c. c \<in> set Encoding) str)"

text \<open>\<open>draw rng n s\<close> calls the byte source \<open>n\<close> times from state \<open>s\<close>: the bytes
  returned, in call order, and the state after the last call.\<close>

fun draw :: "('s \<Rightarrow> uint8_t \<times> 's) \<Rightarrow> nat \<Rightarrow> 's \<Rightarrow> uint8_t list \<times> 's" where
  "draw rng 0 s = ([], s)"
| "draw rng (Suc n) s =
     (let (b, s') = rng s; (bs, s'') = draw rng n s' in (b # bs, s''))"

text \<open>The loop that \<open>CompareULIDs\<close> unrolls (it stands as a comment in the source).\<close>

fun cmp_bytes :: "uint8_t list \<Rightarrow> uint8_t list \<Rightarrow> int" where
  "cmp_bytes (a # as) (b # bs) = (if a \<noteq> b then cmp_cell a b else cmp_bytes as bs)"
| "cmp_bytes _ _ = 0"

text \<open>\<open>digits B n T\<close>: the \<open>n\<close> low digits of \<open>T\<close> in base \<open>B\<close>, most significant
  first.\<close>

fun digits :: "nat \<Rightarrow> nat \<Rightarrow> nat \<Rightarrow> nat list" where
  "digits B 0 T = []"
| "digits B (Suc n) T = (T div B ^ n) mod B # digits B n T"

text \<open>The 5 bits of the scalar from bit \<open>k\<close> upwards.\<close>

definition slice5 :: "uint128_t \<Rightarrow> nat \<Rightarrow> cint" where
  "slice5 u k = ucast (drop_bit k u) AND mask 5"

text \<open>The right-hand sides of \<open>UnmarshalFrom\<close>, as functions of the 26 decoded values
  \<open>c 0\<close> .. \<open>c 25\<close>: the 16 \<open>int\<close> expressions, and the scalar the 128-bit version
  accumulates from them.\<close>

definition unmarshal_exprs :: "(nat \<Rightarrow> cint) \<Rightarrow> cint list" where
  "unmarshal_exprs c =
     [push_bit 5 (c 0) OR c 1,
      push_bit 3 (c 2) OR drop_bit 2 (c 3),
      push_bit 6 (c 3) OR push_bit 1 (c 4) OR drop_bit 4 (c 5),
      push_bit 4 (c 5) OR drop_bit 1 (c 6),
      push_bit 7 (c 6) OR push_bit 2 (c 7) OR drop_bit 3 (c 8),
      push_bit 5 (c 8) OR c 9,
      push_bit 3 (c 10) OR drop_bit 2 (c 11),
      push_bit 6 (c 11) OR push_bit 1 (c 12) OR drop_bit 4 (c 13),
      push_bit 4 (c 13) OR drop_bit 1 (c 14),
      push_bit 7 (c 14) OR push_bit 2 (c 15) OR drop_bit 3 (c 16),
      push_bit 5 (c 16) OR c 17,
      push_bit 3 (c 18) OR drop_bit 2 (c 19),
      push_bit 6 (c 19) OR push_bit 1 (c 20) OR drop_bit 4 (c 21),
      push_bit 4 (c 21) OR drop_bit 1 (c 22),
      push_bit 7 (c 22) OR push_bit 2 (c 23) OR drop_bit 3 (c 24),
      push_bit 5 (c 24) OR c 25]"

fun accumulate_u128 :: "uint128_t \<Rightarrow> cint list \<Rightarrow> uint128_t" where
  "accumulate_u128 ulid [] = ulid"
| "accumulate_u128 ulid (e # es) = accumulate_u128 (push_bit 8 ulid OR scast e) es"

text \<open>A text of 26 characters with codes below 128 (where \<open>dec[int(str[i])]\<close> reads
  inside the table whatever the signedness of \<open>char\<close>).\<close>

definition ascii_text :: "string \<Rightarrow> bool" where
  "ascii_text str = (length str = 26 \<and> list_all (\<lambda>c. of_char c < (128::nat)) str)"

section \<open>Bit-level facts\<close>

lemmas w_defs = w_hi3_def w_lo5_def w_hi5_def w_3_2_def w_mid1_def w_1_4_def w_4_1_def
  w_mid2_def w_2_3_def

lemma MarshalTo_index_windows: "MarshalTo_index ulid = windows (data ulid)"
  unfolding MarshalTo_index_def windows_def w_defs Let_def by (rule refl)

text \<open>The masks of the source, written as shifted runs of ones.\<close>

lemma and_consts:
  fixes w :: "'a::len word"
  shows "w AND 31 = w AND mask 5" "w AND 7 = w AND mask 3" "w AND 1 = w AND mask 1"
    "w AND 15 = w AND mask 4" "w AND 3 = w AND mask 2"
    "w AND 224 = w AND push_bit 5 (mask 3)"
    "w AND 248 = w AND push_bit 3 (mask 5)"
    "w AND 192 = w AND push_bit 6 (mask 2)"
    "w AND 62 = w AND push_bit 1 (mask 5)"
    "w AND 240 = w AND push_bit 4 (mask 4)"
    "w AND 128 = w AND push_bit 7 (mask 1)"
    "w AND 124 = w AND push_bit 2 (mask 5)"
  by (simp_all add: mask_eq_exp_minus_1 push_bit_eq_mult)

lemma less8E:
  assumes "(n::nat) < 8"
  obtains "n = 0" | "n = 1" | "n = 2" | "n = 3" | "n = 4" | "n = 5" | "n = 6" | "n = 7"
  using assms by arith

lemma u8_eqI:
  fixes a b :: uint8_t
  assumes "bit a 0 = bit b 0" "bit a 1 = bit b 1" "bit a 2 = bit b 2" "bit a 3 = bit b 3"
    "bit a 4 = bit b 4" "bit a 5 = bit b 5" "bit a 6 = bit b 6" "bit a 7 = bit b 7"
  shows "a = b"
proof (rule bit_word_eqI)
  fix n assume "n < LENGTH(8)"
  then have "n < 8" by simp
  then show "bit a n = bit b n"
    by (rule less8E) (use assms in simp_all)
qed

lemma lt32I: "(w::cint) AND mask 5 = w \<Longrightarrow> w < 32"
proof -
  assume a: "w AND mask 5 = w"
  have "w AND mask 5 < 2 ^ 5" by (rule and_mask_less') simp
  then show "w < 32" using a by simp
qed

lemma lt8I: "(w::cint) AND mask 3 = w \<Longrightarrow> w < 8"
proof -
  assume a: "w AND mask 3 = w"
  have "w AND mask 3 < 2 ^ 3" by (rule and_mask_less') simp
  then show "w < 8" using a by simp
qed

lemma w_lt32:
  "w_hi3 a < 32" "w_lo5 a < 32" "w_hi5 a < 32" "w_3_2 a b < 32" "w_mid1 a < 32"
  "w_1_4 a b < 32" "w_4_1 a b < 32" "w_mid2 a < 32" "w_2_3 a b < 32"
  unfolding w_defs and_consts
  by (rule lt32I, rule bit_word_eqI, auto simp add: bit_simps simp del: One_nat_def)+

lemma w_hi3_lt8: "w_hi3 a < 8"
  unfolding w_defs and_consts
  by (rule lt8I, rule bit_word_eqI, auto simp add: bit_simps simp del: One_nat_def)

lemma windows_lt32: "\<forall>e \<in> set (windows d). e < 32"
  by (simp add: windows_def w_lt32)

lemma length_windows: "length (windows d) = 26"
  by (simp add: windows_def)

text \<open>Each byte is put together again from the windows that cover it; \<open>z\<close> and \<open>b\<close>
  are the neighbouring bytes, whose bits fall outside the 8 bits kept.\<close>

lemma unwindow:
  "ucast (push_bit 5 (w_hi3 a) OR w_lo5 a) = a"
  "ucast (push_bit 3 (w_hi5 a) OR drop_bit 2 (w_3_2 a b)) = a"
  "ucast (push_bit 6 (w_3_2 z a) OR push_bit 1 (w_mid1 a) OR drop_bit 4 (w_1_4 a b)) = a"
  "ucast (push_bit 4 (w_1_4 z a) OR drop_bit 1 (w_4_1 a b)) = a"
  "ucast (push_bit 7 (w_4_1 z a) OR push_bit 2 (w_mid2 a) OR drop_bit 3 (w_2_3 a b)) = a"
  "ucast (push_bit 5 (w_2_3 z a) OR w_lo5 a) = a"
  unfolding w_defs and_consts
  by (rule u8_eqI; simp add: bit_simps One_nat_def [symmetric] del: One_nat_def)+

text \<open>The decode table inverts the alphabet.\<close>

lemma dec_Encoding: "\<forall>i \<in> set [0..<32]. dec ! of_char (Encoding ! i) = of_nat i"
  unfolding dec_def Encoding_def by code_simp

lemma dec_enc:
  assumes "e < 32"
  shows "ucast (dec ! of_char (Encoding ! unat e)) = (e :: cint)"
proof -
  have "unat e < 32" using assms by (simp add: word_less_nat_alt)
  then have "dec ! of_char (Encoding ! unat e) = of_nat (unat e)"
    using dec_Encoding by simp
  then have d: "dec ! of_char (Encoding ! unat e) = ucast e" by simp
  have m: "e AND mask 5 = e" using assms by (simp add: less_mask_eq)
  have "ucast (ucast (e AND mask 5) :: uint8_t) = e AND mask 5"
    by (rule bit_word_eqI) (auto simp add: bit_simps)
  then show ?thesis unfolding d m .
qed

lemma dec_at_Marshal:
  assumes "i < 26"
  shows "dec_at (Marshal ulid) i = windows (data ulid) ! i"
proof -
  have "windows (data ulid) ! i < 32"
    using windows_lt32 [of "data ulid"] nth_mem [of i "windows (data ulid)"] assms
    by (simp add: length_windows)
  then show ?thesis using assms
    by (simp add: dec_at_def Marshal_def MarshalTo_def MarshalTo_index_windows
        length_windows dec_enc)
qed

lemma len16E:
  assumes "length (xs :: 'a list) = 16"
  obtains a0 a1 a2 a3 a4 a5 a6 a7 a8 a9 a10 a11 a12 a13 a14 a15
  where "xs = [a0, a1, a2, a3, a4, a5, a6, a7, a8, a9, a10, a11, a12, a13, a14, a15]"
  using assms by (auto simp: length_Suc_conv eval_nat_numeral)

section \<open>Text round trip\<close>

lemma Unmarshal_Marshal_id:
  assumes "wf_ULID x"
  shows "Unmarshal (Marshal x) = x"
proof -
  from assms obtain a0 a1 a2 a3 a4 a5 a6 a7 a8 a9 a10 a11 a12 a13 a14 a15
    where dx: "data x = [a0, a1, a2, a3, a4, a5, a6, a7, a8, a9, a10, a11, a12, a13, a14, a15]"
    unfolding wf_ULID_def by (rule len16E)
  have "data (Unmarshal (Marshal x)) = data x"
    using unwindow
    by (simp add: Unmarshal_def UnmarshalFrom_def dec_at_Marshal ULID_zero_def windows_def dx)
  then show ?thesis
    by (cases x) (simp add: Unmarshal_def UnmarshalFrom_def ULID_zero_def)
qed

text \<open>
  Claim C1.  For every 16-byte identifier \<open>x\<close>, decoding the text that encoding
  produces gives \<open>x\<close> back: \<open>Unmarshal (Marshal x) = x\<close>.
\<close>

theorem Unmarshal_Marshal:
  assumes "wf_ULID x"
  shows "Unmarshal (Marshal x) = x"
  using assms by (rule Unmarshal_Marshal_id)

theorem Unmarshal_Marshal_witness:
  "wf_ULID \<lparr>data = [1, 93, 142, 92, 54, 0, 255, 254, 3, 4, 5, 128, 7, 200, 9, 10]\<rparr> \<and>
   Unmarshal (Marshal \<lparr>data = [1, 93, 142, 92, 54, 0, 255, 254, 3, 4, 5, 128, 7, 200, 9, 10]\<rparr>)
     = \<lparr>data = [1, 93, 142, 92, 54, 0, 255, 254, 3, 4, 5, 128, 7, 200, 9, 10]\<rparr>"
  using Unmarshal_Marshal
    [of "\<lparr>data = [1, 93, 142, 92, 54, 0, 255, 254, 3, 4, 5, 128, 7, 200, 9, 10]\<rparr>"]
  by (simp add: wf_ULID_def)

section \<open>The alphabet of the text form\<close>

text \<open>
  Claim C10.  For every identifier the text encoder produces 26 characters; each index
  it reads the alphabet at is in the range 0..31, so each character is one of the 32
  symbols of the alphabet; the first character is one of \<open>0\<close>..\<open>7\<close>, its index
  being the top 3 bits of byte 0.
\<close>

theorem MarshalTo_alphabet:
  assumes "wf_ULID ulid"
  shows "length (MarshalTo ulid) = 26 \<and>
         (\<forall>e \<in> set (MarshalTo_index ulid). unat e < 32) \<and>
         (\<forall>c \<in> set (MarshalTo ulid). c \<in> set Encoding) \<and>
         unat (MarshalTo_index ulid ! 0) < 8 \<and>
         MarshalTo ulid ! 0 \<in> set ''01234567''"
proof -
  have idx: "\<forall>e \<in> set (MarshalTo_index ulid). unat e < 32"
    using windows_lt32 [of "data ulid"]
    by (simp add: MarshalTo_index_windows word_less_nat_alt)
  have "length Encoding = 32"
    by (simp add: Encoding_def)
  then have enc: "\<forall>i < 32. Encoding ! i \<in> set Encoding"
    by simp
  have chars: "\<forall>c \<in> set (MarshalTo ulid). c \<in> set Encoding"
    using idx enc by (auto simp add: MarshalTo_def)
  have first: "unat (MarshalTo_index ulid ! 0) < 8"
    using w_hi3_lt8 [of "data ulid ! 0"]
    by (simp add: MarshalTo_index_windows windows_def word_less_nat_alt)
  have "\<forall>i < 8. Encoding ! i \<in> set ''01234567''"
    by (simp add: Encoding_def All_less_Suc eval_nat_numeral)
  then have "MarshalTo ulid ! 0 \<in> set ''01234567''"
    using first by (simp add: MarshalTo_def MarshalTo_index_windows length_windows)
  then show ?thesis
    using idx chars first by (simp add: MarshalTo_def MarshalTo_index_windows length_windows)
qed

theorem MarshalTo_alphabet_witness:
  "wf_ULID \<lparr>data = [255, 93, 142, 92, 54, 0, 255, 254, 3, 4, 5, 128, 7, 200, 9, 10]\<rparr> \<and>
   length (MarshalTo \<lparr>data = [255, 93, 142, 92, 54, 0, 255, 254, 3, 4, 5, 128, 7, 200, 9, 10]\<rparr>) = 26 \<and>
   list_all (\<lambda>c. c \<in> set Encoding)
     (MarshalTo \<lparr>data = [255, 93, 142, 92, 54, 0, 255, 254, 3, 4, 5, 128, 7, 200, 9, 10]\<rparr>) \<and>
   MarshalTo \<lparr>data = [255, 93, 142, 92, 54, 0, 255, 254, 3, 4, 5, 128, 7, 200, 9, 10]\<rparr> ! 0
     \<in> set ''01234567''"
  using MarshalTo_alphabet
    [of "\<lparr>data = [255, 93, 142, 92, 54, 0, 255, 254, 3, 4, 5, 128, 7, 200, 9, 10]\<rparr>"]
  by (simp add: wf_ULID_def list_all_iff)

section \<open>The all-zero identifier\<close>

text \<open>
  Claim C9, as amended.  Encoding the all-zero identifier gives the text of 26
  characters \<open>0\<close> (not 25).
\<close>

theorem Marshal_zero: "Marshal ULID_zero = ''00000000000000000000000000''"
  by (simp add: Marshal_def MarshalTo_def MarshalTo_index_def ULID_zero_def Encoding_def)

theorem Marshal_zero_counterexample:
  "Marshal ULID_zero \<noteq> ''0000000000000000000000000''"
  by (simp add: Marshal_def MarshalTo_def MarshalTo_index_def ULID_zero_def Encoding_def)

section \<open>The two mutators and their regions\<close>

lemma EncodeTimestamp_data:
  assumes "data x = [a0, a1, a2, a3, a4, a5, a6, a7, a8, a9, a10, a11, a12, a13, a14, a15]"
  shows "data (EncodeTimestamp t x) =
     [ucast (signed_drop_bit 40 t), ucast (signed_drop_bit 32 t), ucast (signed_drop_bit 24 t),
      ucast (signed_drop_bit 16 t), ucast (signed_drop_bit 8 t), ucast t,
      a6, a7, a8, a9, a10, a11, a12, a13, a14, a15]"
  using assms by (simp add: EncodeTimestamp_def)

lemma draw_10:
  "draw rng 10 s0 =
     (let (b6, s1) = rng s0;
          (b7, s2) = rng s1;
          (b8, s3) = rng s2;
          (b9, s4) = rng s3;
          (b10, s5) = rng s4;
          (b11, s6) = rng s5;
          (b12, s7) = rng s6;
          (b13, s8) = rng s7;
          (b14, s9) = rng s8;
          (b15, s10) = rng s9
      in ([b6, b7, b8, b9, b10, b11, b12, b13, b14, b15], s10))"
  by (simp add: eval_nat_numeral split: prod.splits)

lemma EncodeEntropy_draw:
  assumes "wf_ULID x"
  shows "EncodeEntropy rng s x =
           (x\<lparr>data := take 6 (data x) @ fst (draw rng 10 s)\<rparr>, snd (draw rng 10 s))"
proof -
  from assms obtain a0 a1 a2 a3 a4 a5 a6 a7 a8 a9 a10 a11 a12 a13 a14 a15
    where dx: "data x = [a0, a1, a2, a3, a4, a5, a6, a7, a8, a9, a10, a11, a12, a13, a14, a15]"
    unfolding wf_ULID_def by (rule len16E)
  show ?thesis
    unfolding draw_10 EncodeEntropy_def
    by (simp add: dx split: prod.splits)
qed

lemma length_draw: "length (fst (draw rng n s)) = n"
proof (induction n arbitrary: s)
  case 0
  show ?case by simp
next
  case (Suc n)
  obtain b s' where r: "rng s = (b, s')" by (cases "rng s")
  obtain bs s'' where d: "draw rng n s' = (bs, s'')" by (cases "draw rng n s'")
  from Suc [of s'] d have "length bs = n" by simp
  with r d show ?case by simp
qed

text \<open>
  Claim C7.  \<open>EncodeTimestamp\<close> writes bytes 0..5 only: the array keeps its 16 cells and
  bytes 6..15 are unchanged.  \<open>EncodeEntropy\<close> calls the byte source exactly 10 times
  (the state returned is the state after the tenth call), stores the 10 bytes in call
  order in bytes 6..15, and leaves bytes 0..5 unchanged.
\<close>

theorem Encode_frame:
  assumes "wf_ULID x"
  shows "wf_ULID (EncodeTimestamp t x) \<and>
         drop 6 (data (EncodeTimestamp t x)) = drop 6 (data x) \<and>
         EncodeEntropy rng s x =
           (x\<lparr>data := take 6 (data x) @ fst (draw rng 10 s)\<rparr>, snd (draw rng 10 s))"
proof -
  from assms obtain a0 a1 a2 a3 a4 a5 a6 a7 a8 a9 a10 a11 a12 a13 a14 a15
    where dx: "data x = [a0, a1, a2, a3, a4, a5, a6, a7, a8, a9, a10, a11, a12, a13, a14, a15]"
    unfolding wf_ULID_def by (rule len16E)
  have 1: "wf_ULID (EncodeTimestamp t x)"
    by (simp add: wf_ULID_def EncodeTimestamp_data [OF dx])
  have 2: "drop 6 (data (EncodeTimestamp t x)) = drop 6 (data x)"
    by (simp add: EncodeTimestamp_data [OF dx] dx)
  have 3: "EncodeEntropy rng s x =
           (x\<lparr>data := take 6 (data x) @ fst (draw rng 10 s)\<rparr>, snd (draw rng 10 s))"
    using assms by (rule EncodeEntropy_draw)
  from 1 2 3 show ?thesis by simp
qed

theorem Encode_frame_witness:
  "wf_ULID \<lparr>data = [1, 2, 3, 4, 5, 6, 7, 8, 9, 10, 11, 12, 13, 14, 15, 16]\<rparr> \<and>
   data (EncodeTimestamp 0x123456789ABCDEF
      \<lparr>data = [1, 2, 3, 4, 5, 6, 7, 8, 9, 10, 11, 12, 13, 14, 15, 16]\<rparr>)
     = [0x45, 0x67, 0x89, 0xAB, 0xCD, 0xEF, 7, 8, 9, 10, 11, 12, 13, 14, 15, 16] \<and>
   EncodeEntropy (\<lambda>n. (of_nat (7 * n + 1), Suc n)) (3::nat)
      \<lparr>data = [1, 2, 3, 4, 5, 6, 7, 8, 9, 10, 11, 12, 13, 14, 15, 16]\<rparr>
     = (\<lparr>data = [1, 2, 3, 4, 5, 6, 22, 29, 36, 43, 50, 57, 64, 71, 78, 85]\<rparr>, 13)"
  using Encode_frame [of "\<lparr>data = [1, 2, 3, 4, 5, 6, 7, 8, 9, 10, 11, 12, 13, 14, 15, 16]\<rparr>"
      "0x123456789ABCDEF" "\<lambda>n. (of_nat (7 * n + 1), Suc n)" "3::nat"]
  by (simp add: wf_ULID_def EncodeTimestamp_def draw_10)

section \<open>Timestamp round trip\<close>

lemma byte_of_ts:
  fixes t :: int64_t
  assumes "k \<le> 56"
  shows "(ucast (ucast (signed_drop_bit k t) :: uint8_t) :: 64 word) = take_bit 8 (drop_bit k t)"
  using assms by (intro bit_word_eqI) (auto simp add: bit_simps simp del: One_nat_def)

lemma take_bit_split8:
  fixes t :: "'a::len word"
  shows "push_bit k (take_bit 8 (drop_bit k t)) OR take_bit k t = take_bit (k + 8) t"
proof (rule bit_word_eqI)
  fix n assume n: "n < LENGTH('a)"
  show "bit (push_bit k (take_bit 8 (drop_bit k t)) OR take_bit k t) n = bit (take_bit (k + 8) t) n"
  proof (cases "k \<le> n")
    case True
    then have "k + (n - k) = n" by simp
    with True n show ?thesis by (auto simp add: bit_simps)
  next
    case False
    with n show ?thesis by (auto simp add: bit_simps)
  qed
qed

lemma timestamp_of_EncodeTimestamp:
  assumes "wf_ULID x"
  shows "cpp_bytes_to_timestamp (MarshalBinary (EncodeTimestamp t x)) = take_bit 48 t"
proof -
  from assms obtain a0 a1 a2 a3 a4 a5 a6 a7 a8 a9 a10 a11 a12 a13 a14 a15
    where dx: "data x = [a0, a1, a2, a3, a4, a5, a6, a7, a8, a9, a10, a11, a12, a13, a14, a15]"
    unfolding wf_ULID_def by (rule len16E)
  have b0: "(ucast (ucast t :: uint8_t) :: 64 word) = take_bit 8 (drop_bit 0 t)"
    using byte_of_ts [of 0 t] by simp
  have "cpp_bytes_to_timestamp (MarshalBinary (EncodeTimestamp t x)) =
      push_bit 40 (take_bit 8 (drop_bit 40 t)) OR (push_bit 32 (take_bit 8 (drop_bit 32 t)) OR
      (push_bit 24 (take_bit 8 (drop_bit 24 t)) OR (push_bit 16 (take_bit 8 (drop_bit 16 t)) OR
      (push_bit 8 (take_bit 8 (drop_bit 8 t)) OR (push_bit 0 (take_bit 8 (drop_bit 0 t)) OR take_bit 0 t)))))"
    unfolding cpp_bytes_to_timestamp_def MarshalBinary_def EncodeTimestamp_data [OF dx] Let_def
    by (simp add: byte_of_ts b0 or.assoc)
  also have "\<dots> = take_bit 48 t"
    using take_bit_split8 [of 0 t] take_bit_split8 [of 8 t] take_bit_split8 [of 16 t]
      take_bit_split8 [of 24 t] take_bit_split8 [of 32 t] take_bit_split8 [of 40 t]
    by simp
  finally show ?thesis .
qed

text \<open>
  Claim C4.  For every timestamp \<open>t\<close> in \<open>[0, 2^48 - 1]\<close> and every identifier,
  extracting the timestamp after encoding it returns \<open>t\<close>; for \<open>t\<close> at or above
  \<open>2^48\<close> the extracted value is \<open>t mod 2^48\<close>; in every case it is the low 48 bits
  of \<open>t\<close>, so the top 16 bits of the 64-bit result are zero.
\<close>

theorem timestamp_round_trip:
  assumes "wf_ULID x"
  shows "(0 \<le> sint t \<and> sint t < 2 ^ 48 \<longrightarrow>
            cpp_bytes_to_timestamp (MarshalBinary (EncodeTimestamp t x)) = t) \<and>
         (2 ^ 48 \<le> sint t \<longrightarrow>
            uint (cpp_bytes_to_timestamp (MarshalBinary (EncodeTimestamp t x))) = sint t mod 2 ^ 48) \<and>
         cpp_bytes_to_timestamp (MarshalBinary (EncodeTimestamp t x)) = take_bit 48 t \<and>
         drop_bit 48 (cpp_bytes_to_timestamp (MarshalBinary (EncodeTimestamp t x))) = 0"
proof -
  let ?r = "cpp_bytes_to_timestamp (MarshalBinary (EncodeTimestamp t x))"
  have r: "?r = take_bit 48 t" using assms by (rule timestamp_of_EncodeTimestamp)
  have u: "uint ?r = uint t mod 2 ^ 48"
    unfolding r unsigned_take_bit_eq by (simp add: take_bit_eq_mod)
  have pos: "uint t = sint t" if "0 \<le> sint t"
  proof -
    have "sint t < 2 ^ 64" using sint_lt [of t] by simp
    then have "take_bit 64 (sint t) = sint t"
      using that by (simp add: take_bit_int_eq_self)
    then show ?thesis using uint_sint [of t] by simp
  qed
  have 1: "?r = t" if "0 \<le> sint t" "sint t < 2 ^ 48"
  proof -
    have "uint ?r = uint t" using that u pos by simp
    then show ?thesis by (simp only: word_uint_eq_iff)
  qed
  have 2: "uint ?r = sint t mod 2 ^ 48" if "2 ^ 48 \<le> sint t"
    using that u pos by simp
  have 3: "drop_bit 48 ?r = 0"
    unfolding r by (rule bit_word_eqI) (simp add: bit_simps)
  from 1 2 3 r show ?thesis by blast
qed

theorem timestamp_round_trip_witness:
  "wf_ULID ULID_zero \<and> 0 \<le> sint (0x15D8E5C3600 :: int64_t) \<and> sint (0x15D8E5C3600 :: int64_t) < 2 ^ 48 \<and>
   cpp_bytes_to_timestamp (MarshalBinary (EncodeTimestamp 0x15D8E5C3600 ULID_zero)) = 0x15D8E5C3600 \<and>
   2 ^ 48 \<le> sint (0x1000000000005 :: int64_t) \<and>
   uint (cpp_bytes_to_timestamp (MarshalBinary (EncodeTimestamp 0x1000000000005 ULID_zero))) = 5"
  using timestamp_round_trip [of ULID_zero "0x15D8E5C3600"]
    timestamp_round_trip [of ULID_zero "0x1000000000005"]
  by (simp add: wf_ULID_def ULID_zero_def)

section \<open>Comparison\<close>

lemma CompareULIDs_cmp_bytes:
  assumes "wf_ULID x" "wf_ULID y"
  shows "CompareULIDs x y = cmp_bytes (data x) (data y)"
proof -
  from assms(1) obtain a0 a1 a2 a3 a4 a5 a6 a7 a8 a9 a10 a11 a12 a13 a14 a15
    where dx: "data x = [a0, a1, a2, a3, a4, a5, a6, a7, a8, a9, a10, a11, a12, a13, a14, a15]"
    unfolding wf_ULID_def by (rule len16E)
  from assms(2) obtain b0 b1 b2 b3 b4 b5 b6 b7 b8 b9 b10 b11 b12 b13 b14 b15
    where dy: "data y = [b0, b1, b2, b3, b4, b5, b6, b7, b8, b9, b10, b11, b12, b13, b14, b15]"
    unfolding wf_ULID_def by (rule len16E)
  show ?thesis
    by (simp add: CompareULIDs_def dx dy)
qed

lemma cmp_cell_cases: "cmp_cell a b = (if a < b then - 1 else 1)"
  by (simp add: cmp_cell_def)

lemma cmp_bytes_range: "cmp_bytes xs ys \<in> {- 1, 0, 1}"
  by (induction xs ys rule: cmp_bytes.induct) (auto simp add: cmp_cell_cases)

lemma cmp_bytes_eq_0:
  "length xs = length ys \<Longrightarrow> cmp_bytes xs ys = 0 \<longleftrightarrow> xs = ys"
  by (induction xs ys rule: cmp_bytes.induct) (auto simp add: cmp_cell_cases)

lemma cmp_bytes_first_diff:
  "length xs = length ys \<Longrightarrow> i < length xs \<Longrightarrow> \<forall>j < i. xs ! j = ys ! j \<Longrightarrow>
   xs ! i \<noteq> ys ! i \<Longrightarrow> cmp_bytes xs ys = (if xs ! i < ys ! i then - 1 else 1)"
proof (induction xs ys arbitrary: i rule: cmp_bytes.induct)
  case (1 a as b bs)
  show ?case
  proof (cases i)
    case 0
    with "1.prems" show ?thesis by (simp add: cmp_cell_cases)
  next
    case (Suc k)
    from "1.prems"(3) Suc have "(a # as) ! 0 = (b # bs) ! 0" by blast
    then have ab: "a = b" by simp
    have "as ! j = bs ! j" if "j < k" for j
    proof -
      from that Suc have "Suc j < i" by simp
      with "1.prems"(3) have "(a # as) ! Suc j = (b # bs) ! Suc j" by blast
      then show ?thesis by simp
    qed
    then have "cmp_bytes as bs = (if as ! k < bs ! k then - 1 else 1)"
      using "1.IH" [of k] "1.prems" ab Suc by simp
    with ab Suc show ?thesis by simp
  qed
qed simp_all

lemma cmp_bytes_lex:
  "length xs = length ys \<Longrightarrow>
   cmp_bytes xs ys = (if xs < ys then - 1 else if xs = ys then 0 else 1)"
  by (induction xs ys rule: cmp_bytes.induct) (auto simp add: cmp_cell_cases)

section \<open>Digits and the lexicographic order\<close>

lemma mod_power_Suc_split:
  fixes T B :: nat
  shows "T mod (B * B ^ n) = (T div B ^ n mod B) * B ^ n + T mod B ^ n"
proof -
  have "T mod (B ^ n * B) = B ^ n * (T div B ^ n mod B) + T mod B ^ n"
    by (rule mod_mult2_eq)
  then show ?thesis by (simp add: mult.commute)
qed

lemma length_digits: "length (digits B n T) = n"
  by (induction n) simp_all

lemma digits_less_iff:
  assumes "0 < B"
  shows "digits B n T1 < digits B n T2 \<longleftrightarrow> T1 mod B ^ n < T2 mod B ^ n"
proof (induction n)
  case 0
  show ?case by simp
next
  case (Suc n)
  show ?case
  proof -
    have False: "B \<noteq> 0" using assms by simp
    let ?h1 = "T1 div B ^ n mod B" and ?h2 = "T2 div B ^ n mod B"
    let ?l1 = "T1 mod B ^ n" and ?l2 = "T2 mod B ^ n"
    have P: "0 < B ^ n" using False by simp
    have l1: "?l1 < B ^ n" and l2: "?l2 < B ^ n" using P by simp_all
    have "(?h1 * B ^ n + ?l1 < ?h2 * B ^ n + ?l2) \<longleftrightarrow> (?h1 < ?h2 \<or> ?h1 = ?h2 \<and> ?l1 < ?l2)"
    proof (cases "?h1 < ?h2")
      case True
      then have "Suc ?h1 \<le> ?h2" by simp
      then have "Suc ?h1 * B ^ n \<le> ?h2 * B ^ n" by (rule mult_le_mono1)
      then have "?h1 * B ^ n + ?l1 < ?h2 * B ^ n + ?l2" using l1 by simp
      with True show ?thesis by simp
    next
      case nlt: False
      show ?thesis
      proof (cases "?h1 = ?h2")
        case True
        then show ?thesis by simp
      next
        case False
        with nlt have "?h2 < ?h1" by simp
        then have "Suc ?h2 \<le> ?h1" by simp
        then have "Suc ?h2 * B ^ n \<le> ?h1 * B ^ n" by (rule mult_le_mono1)
        then have "?h2 * B ^ n + ?l2 < ?h1 * B ^ n + ?l1" using l2 by simp
        with nlt False show ?thesis by simp
      qed
    qed
    then show ?thesis
      using Suc by (simp add: mod_power_Suc_split [of T1] mod_power_Suc_split [of T2])
  qed
qed

lemma map_unat_less_iff:
  fixes xs ys :: "'a::len word list"
  shows "map unat xs < map unat ys \<longleftrightarrow> xs < ys"
proof (induction xs arbitrary: ys)
  case Nil
  show ?case by (cases ys) simp_all
next
  case (Cons x xs)
  show ?case
  proof (cases ys)
    case Nil
    then show ?thesis by simp
  next
    case (Cons y ys')
    then show ?thesis using Cons.IH [of ys']
      by (simp add: word_less_nat_alt word_unat_eq_iff)
  qed
qed

section \<open>The scalar and its 16 bytes\<close>

lemma horner8:
  fixes u :: "'a::len word"
  shows "push_bit 8 (drop_bit (k + 8) u) OR take_bit 8 (drop_bit k u) = drop_bit k u"
proof (rule bit_word_eqI)
  fix n assume n: "n < LENGTH('a)"
  show "bit (push_bit 8 (drop_bit (k + 8) u) OR take_bit 8 (drop_bit k u)) n = bit (drop_bit k u) n"
  proof (cases "8 \<le> n")
    case True
    then have "k + 8 + (n - 8) = k + n" by simp
    with True n show ?thesis by (auto simp add: bit_simps)
  next
    case False
    with n show ?thesis by (auto simp add: bit_simps)
  qed
qed

lemma byte_u128:
  fixes u :: uint128_t
  shows "(ucast (ucast (drop_bit k u) :: uint8_t) :: uint128_t) = take_bit 8 (drop_bit k u)"
  by (rule bit_word_eqI) (auto simp add: bit_simps)

lemma top_byte_u128:
  fixes u :: uint128_t
  shows "take_bit 8 (drop_bit 120 u) = drop_bit 120 u"
  by (rule bit_word_eqI) (auto simp add: bit_simps dest: bit_imp_le_length)

lemma UnmarshalBinary_MarshalBinary_u128:
  "UnmarshalBinaryFrom_u128 (MarshalBinary_u128 u) = u"
proof -
  have b0: "(ucast (ucast u :: uint8_t) :: uint128_t) = take_bit 8 (drop_bit 0 u)"
    using byte_u128 [of 0 u] by simp
  show ?thesis
    unfolding UnmarshalBinaryFrom_u128_def MarshalBinary_u128_def Let_def
    using horner8 [of 112 u] horner8 [of 104 u] horner8 [of 96 u] horner8 [of 88 u]
      horner8 [of 80 u] horner8 [of 72 u] horner8 [of 64 u] horner8 [of 56 u]
      horner8 [of 48 u] horner8 [of 40 u] horner8 [of 32 u] horner8 [of 24 u]
      horner8 [of 16 u] horner8 [of 8 u] horner8 [of 0 u]
    by (simp add: byte_u128 b0 top_byte_u128)
qed

lemma bit_u8_high: "8 \<le> n \<Longrightarrow> bit (w::uint8_t) n = False"
  by (auto dest: bit_imp_le_length)

lemma MarshalBinary_UnmarshalBinary_u128:
  assumes "length b = 16"
  shows "MarshalBinary_u128 (UnmarshalBinaryFrom_u128 b) = b"
proof -
  from assms obtain a0 a1 a2 a3 a4 a5 a6 a7 a8 a9 a10 a11 a12 a13 a14 a15
    where b: "b = [a0, a1, a2, a3, a4, a5, a6, a7, a8, a9, a10, a11, a12, a13, a14, a15]"
    by (rule len16E)
  show ?thesis
    unfolding UnmarshalBinaryFrom_u128_def MarshalBinary_u128_def Let_def b
    apply (simp only: list.inject nth_Cons_0 nth_Cons_numeral simp_thms)
    apply simp
    apply (intro conjI)
    apply (rule u8_eqI; simp add: bit_simps bit_u8_high One_nat_def [symmetric] del: One_nat_def)+
    done
qed

lemma digits_16:
  "digits B 16 T = [T div B ^ 15 mod B, T div B ^ 14 mod B, T div B ^ 13 mod B, T div B ^ 12 mod B,
     T div B ^ 11 mod B, T div B ^ 10 mod B, T div B ^ 9 mod B, T div B ^ 8 mod B,
     T div B ^ 7 mod B, T div B ^ 6 mod B, T div B ^ 5 mod B, T div B ^ 4 mod B,
     T div B ^ 3 mod B, T div B ^ 2 mod B, T div B ^ 1 mod B, T div B ^ 0 mod B]"
  by (simp add: eval_nat_numeral)

lemma unat_byte:
  fixes u :: "'a::len word"
  shows "unat (ucast (drop_bit k u) :: uint8_t) = unat u div 2 ^ k mod 256"
  unfolding unsigned_ucast_eq unat_drop_bit_eq
  by (simp add: take_bit_eq_mod drop_bit_eq_div)

lemma bytes_digits: "map unat (MarshalBinary_u128 u) = digits 256 16 (unat u)"
proof -
  have u0: "unat (ucast u :: uint8_t) = unat u div 2 ^ 0 mod 256"
    using unat_byte [of 0 u] by simp
  have p: "(256::nat) ^ 15 = 2 ^ 120" "(256::nat) ^ 14 = 2 ^ 112" "(256::nat) ^ 13 = 2 ^ 104"
    "(256::nat) ^ 12 = 2 ^ 96" "(256::nat) ^ 11 = 2 ^ 88" "(256::nat) ^ 10 = 2 ^ 80"
    "(256::nat) ^ 9 = 2 ^ 72" "(256::nat) ^ 8 = 2 ^ 64" "(256::nat) ^ 7 = 2 ^ 56"
    "(256::nat) ^ 6 = 2 ^ 48" "(256::nat) ^ 5 = 2 ^ 40" "(256::nat) ^ 4 = 2 ^ 32"
    "(256::nat) ^ 3 = 2 ^ 24" "(256::nat) ^ 2 = 2 ^ 16" "(256::nat) ^ 1 = 2 ^ 8"
    "(256::nat) ^ 0 = 2 ^ 0"
    by simp_all
  show ?thesis
    unfolding MarshalBinary_u128_def digits_16 p list.map unat_byte u0 ..
qed

lemma u128_less_iff_bytes:
  "u < v \<longleftrightarrow> MarshalBinary_u128 u < MarshalBinary_u128 v"
proof -
  have "unat u < 2 ^ 128" "unat v < 2 ^ 128"
    using unsigned_less [of u] unsigned_less [of v] by simp_all
  then have m: "unat u mod 256 ^ 16 = unat u" "unat v mod 256 ^ 16 = unat v"
    by simp_all
  have "MarshalBinary_u128 u < MarshalBinary_u128 v \<longleftrightarrow>
      map unat (MarshalBinary_u128 u) < map unat (MarshalBinary_u128 v)"
    by (simp only: map_unat_less_iff)
  also have "\<dots> \<longleftrightarrow> unat u mod 256 ^ 16 < unat v mod 256 ^ 16"
    unfolding bytes_digits by (rule digits_less_iff) simp
  also have "\<dots> \<longleftrightarrow> u < v"
    unfolding m by (simp add: word_less_nat_alt)
  finally show ?thesis by simp
qed

lemma length_MarshalBinary_u128: "length (MarshalBinary_u128 u) = 16"
  by (simp add: MarshalBinary_u128_def)

lemma MarshalBinary_u128_inj:
  "MarshalBinary_u128 u = MarshalBinary_u128 v \<longleftrightarrow> u = v"
proof
  assume "MarshalBinary_u128 u = MarshalBinary_u128 v"
  then have "UnmarshalBinaryFrom_u128 (MarshalBinary_u128 u) =
      UnmarshalBinaryFrom_u128 (MarshalBinary_u128 v)"
    by (rule arg_cong)
  then show "u = v" by (simp only: UnmarshalBinary_MarshalBinary_u128)
qed simp

lemma CompareULIDs_u128_cmp_bytes:
  "CompareULIDs_u128 u v = cmp_bytes (MarshalBinary_u128 u) (MarshalBinary_u128 v)"
  by (auto simp add: CompareULIDs_u128_def cmp_bytes_lex length_MarshalBinary_u128
      MarshalBinary_u128_inj u128_less_iff_bytes)

text \<open>
  Claim C6.  For every pair of identifiers, \<open>CompareULIDs\<close> returns \<open>-1\<close>, \<open>0\<close> or
  \<open>1\<close>; it returns \<open>0\<close> exactly when all 16 bytes are equal; otherwise the result is
  \<open>-1\<close> or \<open>1\<close> by the unsigned order of the bytes at the first index where they
  differ.  The comparison of the scalar version gives the same result on the big-endian
  bytes of its arguments.
\<close>

theorem CompareULIDs_spec:
  assumes "wf_ULID a" "wf_ULID b"
  shows "CompareULIDs a b \<in> {- 1, 0, 1} \<and>
         (CompareULIDs a b = 0 \<longleftrightarrow> (\<forall>i < 16. data a ! i = data b ! i)) \<and>
         (\<forall>i < 16. (\<forall>j < i. data a ! j = data b ! j) \<and> data a ! i \<noteq> data b ! i \<longrightarrow>
            CompareULIDs a b = (if data a ! i < data b ! i then - 1 else 1)) \<and>
         CompareULIDs_u128 u v =
           CompareULIDs \<lparr>data = MarshalBinary_u128 u\<rparr> \<lparr>data = MarshalBinary_u128 v\<rparr>"
proof -
  have len: "length (data a) = 16" "length (data b) = 16"
    using assms by (simp_all add: wf_ULID_def)
  have c: "CompareULIDs a b = cmp_bytes (data a) (data b)"
    using assms by (rule CompareULIDs_cmp_bytes)
  have 1: "CompareULIDs a b \<in> {- 1, 0, 1}"
    unfolding c by (rule cmp_bytes_range)
  have "data a = data b \<longleftrightarrow> (\<forall>i < 16. data a ! i = data b ! i)"
    using len by (simp add: list_eq_iff_nth_eq)
  then have 2: "CompareULIDs a b = 0 \<longleftrightarrow> (\<forall>i < 16. data a ! i = data b ! i)"
    unfolding c using len by (simp add: cmp_bytes_eq_0)
  have 3: "\<forall>i < 16. (\<forall>j < i. data a ! j = data b ! j) \<and> data a ! i \<noteq> data b ! i \<longrightarrow>
            CompareULIDs a b = (if data a ! i < data b ! i then - 1 else 1)"
    unfolding c using len cmp_bytes_first_diff [of "data a" "data b"] by simp
  have 4: "CompareULIDs_u128 u v =
           CompareULIDs \<lparr>data = MarshalBinary_u128 u\<rparr> \<lparr>data = MarshalBinary_u128 v\<rparr>"
    by (simp add: CompareULIDs_u128_cmp_bytes CompareULIDs_cmp_bytes wf_ULID_def
        length_MarshalBinary_u128)
  from 1 2 3 4 show ?thesis by blast
qed

theorem CompareULIDs_spec_witness:
  "wf_ULID \<lparr>data = [1, 93, 142, 92, 54, 0, 7, 128, 3, 4, 5, 6, 7, 8, 9, 10]\<rparr> \<and>
   wf_ULID \<lparr>data = [1, 93, 142, 92, 54, 0, 7, 127, 255, 4, 5, 6, 7, 8, 9, 10]\<rparr> \<and>
   CompareULIDs \<lparr>data = [1, 93, 142, 92, 54, 0, 7, 128, 3, 4, 5, 6, 7, 8, 9, 10]\<rparr>
     \<lparr>data = [1, 93, 142, 92, 54, 0, 7, 127, 255, 4, 5, 6, 7, 8, 9, 10]\<rparr> = 1 \<and>
   CompareULIDs_u128 0x015D8E5C36000780030405060708090A 0x015D8E5C3600077FFF0405060708090A = 1"
proof -
  let ?a = "\<lparr>data = [1, 93, 142, 92, 54, 0, 7, 128, 3, 4, 5, 6, 7, 8, 9, 10]\<rparr>"
  let ?b = "\<lparr>data = [1, 93, 142, 92, 54, 0, 7, 127, 255, 4, 5, 6, 7, 8, 9, 10]\<rparr>"
  let ?u = "0x015D8E5C36000780030405060708090A :: uint128_t"
  let ?v = "0x015D8E5C3600077FFF0405060708090A :: uint128_t"
  have wa: "wf_ULID ?a" and wb: "wf_ULID ?b"
    by (simp_all add: wf_ULID_def)
  from CompareULIDs_spec [OF wa wb, of ?u ?v]
  have "CompareULIDs_u128 ?u ?v =
      CompareULIDs \<lparr>data = MarshalBinary_u128 ?u\<rparr> \<lparr>data = MarshalBinary_u128 ?v\<rparr>"
    by blast
  moreover have "MarshalBinary_u128 ?u = data ?a" "MarshalBinary_u128 ?v = data ?b"
    by (simp_all add: MarshalBinary_u128_def)
  moreover have "CompareULIDs ?a ?b = 1"
    by (simp add: CompareULIDs_def cmp_cell_def)
  ultimately show ?thesis using wa wb by simp
qed

section \<open>The text form as base-32 digits of the scalar\<close>

lemma bit5E:
  assumes "(n::nat) < LENGTH(32)"
  obtains "n = 0" | "n = 1" | "n = 2" | "n = 3" | "n = 4" | "5 \<le> n" "n < 32"
  using assms by (simp only: len_bit0 len_num1) arith

lemma bit_u128_high: "128 \<le> n \<Longrightarrow> bit (w::uint128_t) n = False"
  by (auto dest: bit_imp_le_length)

lemma windows_u128:
  "windows (MarshalBinary_u128 u) =
     [slice5 u 125, slice5 u 120, slice5 u 115, slice5 u 110, slice5 u 105, slice5 u 100,
      slice5 u 95, slice5 u 90, slice5 u 85, slice5 u 80, slice5 u 75, slice5 u 70,
      slice5 u 65, slice5 u 60, slice5 u 55, slice5 u 50, slice5 u 45, slice5 u 40,
      slice5 u 35, slice5 u 30, slice5 u 25, slice5 u 20, slice5 u 15, slice5 u 10,
      slice5 u 5, slice5 u 0]"
  apply (simp add: windows_def MarshalBinary_u128_def)
  unfolding w_defs and_consts slice5_def
  apply (intro conjI)
  apply (rule bit_word_eqI, erule bit5E;
      auto simp add: bit_simps bit_u128_high One_nat_def [symmetric] simp del: One_nat_def)+
  done

lemma unat_slice5: "unat (slice5 u k) = unat u div 2 ^ k mod 32"
proof -
  have "unat (slice5 u k) = take_bit 5 (take_bit 32 (drop_bit k (unat u)))"
    unfolding slice5_def take_bit_eq_mask [symmetric] unsigned_take_bit_eq unsigned_ucast_eq
      unat_drop_bit_eq by simp
  also have "\<dots> = take_bit 5 (drop_bit k (unat u))"
    by simp
  finally show ?thesis
    by (simp add: take_bit_eq_mod drop_bit_eq_div)
qed

lemma digits_26:
  "digits B 26 T = [T div B ^ 25 mod B, T div B ^ 24 mod B, T div B ^ 23 mod B, T div B ^ 22 mod B,
     T div B ^ 21 mod B, T div B ^ 20 mod B, T div B ^ 19 mod B, T div B ^ 18 mod B,
     T div B ^ 17 mod B, T div B ^ 16 mod B,
     T div B ^ 15 mod B, T div B ^ 14 mod B, T div B ^ 13 mod B, T div B ^ 12 mod B,
     T div B ^ 11 mod B, T div B ^ 10 mod B, T div B ^ 9 mod B, T div B ^ 8 mod B,
     T div B ^ 7 mod B, T div B ^ 6 mod B, T div B ^ 5 mod B, T div B ^ 4 mod B,
     T div B ^ 3 mod B, T div B ^ 2 mod B, T div B ^ 1 mod B, T div B ^ 0 mod B]"
  by (simp add: eval_nat_numeral)

lemma windows_digits: "map unat (windows (MarshalBinary_u128 u)) = digits 32 26 (unat u)"
proof -
  have p: "(32::nat) ^ 25 = 2 ^ 125" "(32::nat) ^ 24 = 2 ^ 120" "(32::nat) ^ 23 = 2 ^ 115"
    "(32::nat) ^ 22 = 2 ^ 110" "(32::nat) ^ 21 = 2 ^ 105" "(32::nat) ^ 20 = 2 ^ 100"
    "(32::nat) ^ 19 = 2 ^ 95" "(32::nat) ^ 18 = 2 ^ 90" "(32::nat) ^ 17 = 2 ^ 85"
    "(32::nat) ^ 16 = 2 ^ 80" "(32::nat) ^ 15 = 2 ^ 75" "(32::nat) ^ 14 = 2 ^ 70"
    "(32::nat) ^ 13 = 2 ^ 65" "(32::nat) ^ 12 = 2 ^ 60" "(32::nat) ^ 11 = 2 ^ 55"
    "(32::nat) ^ 10 = 2 ^ 50" "(32::nat) ^ 9 = 2 ^ 45" "(32::nat) ^ 8 = 2 ^ 40"
    "(32::nat) ^ 7 = 2 ^ 35" "(32::nat) ^ 6 = 2 ^ 30" "(32::nat) ^ 5 = 2 ^ 25"
    "(32::nat) ^ 4 = 2 ^ 20" "(32::nat) ^ 3 = 2 ^ 15" "(32::nat) ^ 2 = 2 ^ 10"
    "(32::nat) ^ 1 = 2 ^ 5" "(32::nat) ^ 0 = 2 ^ 0"
    by simp_all
  show ?thesis
    unfolding windows_u128 digits_26 p list.map unat_slice5 ..
qed

lemma Encoding_strict: "sorted_wrt (<) Encoding"
  unfolding Encoding_def by (simp add: less_char_def)

lemma Encoding_nth_less_iff:
  assumes "i < 32" "j < 32"
  shows "Encoding ! i < Encoding ! j \<longleftrightarrow> i < j"
proof -
  have len: "length Encoding = 32" by (simp add: Encoding_def)
  have mono: "Encoding ! a < Encoding ! b" if "a < b" "b < 32" for a b
    using sorted_wrt_nth_less [OF Encoding_strict, of a b] that len by simp
  show ?thesis
  proof (cases i j rule: linorder_cases)
    case less
    with mono assms show ?thesis by simp
  next
    case equal
    then show ?thesis by simp
  next
    case greater
    with mono [of j i] assms show ?thesis by (simp add: less_le_not_le)
  qed
qed

lemma Encoding_nth_eq_iff:
  assumes "i < 32" "j < 32"
  shows "Encoding ! i = Encoding ! j \<longleftrightarrow> i = j"
  using Encoding_nth_less_iff [OF assms] Encoding_nth_less_iff [OF assms(2) assms(1)]
  by (cases i j rule: linorder_cases) auto

lemma map_Encoding_less_iff:
  assumes "\<forall>i \<in> set xs. i < 32" "\<forall>j \<in> set ys. j < 32"
  shows "map ((!) Encoding) xs < map ((!) Encoding) ys \<longleftrightarrow> xs < ys"
  using assms
proof (induction xs arbitrary: ys)
  case Nil
  show ?case by (cases ys) simp_all
next
  case (Cons x xs)
  show ?case
  proof (cases ys)
    case Nil
    then show ?thesis by simp
  next
    case (Cons y ys')
    with Cons.prems have "x < 32" "y < 32" by simp_all
    then show ?thesis
      using Cons.IH [of ys'] Cons.prems Cons
      by (simp add: Encoding_nth_less_iff Encoding_nth_eq_iff)
  qed
qed

lemma Marshal_u128_digits:
  "Marshal_u128 u = map ((!) Encoding) (digits 32 26 (unat u))"
proof -
  have "MarshalTo_index_u128 u = windows (MarshalBinary_u128 u)"
    unfolding MarshalTo_index_u128_def windows_def w_defs Let_def MarshalBinary_u128_def
    by simp
  then show ?thesis
    unfolding Marshal_u128_def MarshalTo_u128_def windows_digits [symmetric]
    by (simp add: comp_def)
qed

lemma digits_lt: "0 < B \<Longrightarrow> \<forall>d \<in> set (digits B n T). d < B"
  by (induction n) simp_all

lemma Marshal_u128_less_iff: "Marshal_u128 u < Marshal_u128 v \<longleftrightarrow> u < v"
proof -
  have "unat u < 2 ^ 128" "unat v < 2 ^ 128"
    using unsigned_less [of u] unsigned_less [of v] by simp_all
  then have m: "unat u mod 32 ^ 26 = unat u" "unat v mod 32 ^ 26 = unat v"
    by simp_all
  have "Marshal_u128 u < Marshal_u128 v \<longleftrightarrow> digits 32 26 (unat u) < digits 32 26 (unat v)"
    unfolding Marshal_u128_digits
    by (rule map_Encoding_less_iff) (simp_all add: digits_lt)
  also have "\<dots> \<longleftrightarrow> unat u mod 32 ^ 26 < unat v mod 32 ^ 26"
    by (rule digits_less_iff) simp
  also have "\<dots> \<longleftrightarrow> u < v"
    unfolding m by (simp add: word_less_nat_alt)
  finally show ?thesis .
qed

lemma Marshal_as_u128:
  assumes "wf_ULID x"
  shows "Marshal x = Marshal_u128 (UnmarshalBinaryFrom_u128 (data x))"
proof -
  have "MarshalTo_index_u128 u = windows (MarshalBinary_u128 u)" for u
    unfolding MarshalTo_index_u128_def windows_def w_defs Let_def MarshalBinary_u128_def
    by simp
  then show ?thesis
    using assms
    by (simp add: Marshal_def MarshalTo_def MarshalTo_index_windows Marshal_u128_def
        MarshalTo_u128_def MarshalBinary_UnmarshalBinary_u128 wf_ULID_def)
qed

lemma Marshal_less_iff:
  assumes "wf_ULID x" "wf_ULID y"
  shows "Marshal x < Marshal y \<longleftrightarrow> data x < data y"
proof -
  let ?u = "UnmarshalBinaryFrom_u128 (data x)" and ?v = "UnmarshalBinaryFrom_u128 (data y)"
  have "Marshal x < Marshal y \<longleftrightarrow> ?u < ?v"
    unfolding Marshal_as_u128 [OF assms(1)] Marshal_as_u128 [OF assms(2)]
    by (rule Marshal_u128_less_iff)
  also have "\<dots> \<longleftrightarrow> MarshalBinary_u128 ?u < MarshalBinary_u128 ?v"
    by (rule u128_less_iff_bytes)
  also have "\<dots> \<longleftrightarrow> data x < data y"
    using assms by (simp add: MarshalBinary_UnmarshalBinary_u128 wf_ULID_def)
  finally show ?thesis .
qed

lemma digits_6:
  "digits B 6 T = [T div B ^ 5 mod B, T div B ^ 4 mod B,
     T div B ^ 3 mod B, T div B ^ 2 mod B, T div B ^ 1 mod B, T div B ^ 0 mod B]"
  by (simp add: eval_nat_numeral)

lemma unat_byte_ts:
  fixes t :: int64_t
  assumes "k \<le> 56"
  shows "unat (ucast (signed_drop_bit k t) :: uint8_t) = unat t div 2 ^ k mod 256"
proof -
  have "(ucast (signed_drop_bit k t) :: uint8_t) = ucast (drop_bit k t)"
    using assms by (intro bit_word_eqI) (auto simp add: bit_simps simp del: One_nat_def)
  then show ?thesis by (simp only: unat_byte)
qed

lemma append_less_append:
  fixes xs ys :: "'a::linorder list"
  assumes "length xs = length ys" "xs < ys"
  shows "xs @ r < ys @ s"
  using assms
proof (induction xs arbitrary: ys)
  case Nil
  then show ?case by simp
next
  case (Cons a xs)
  then obtain b ys' where ys: "ys = b # ys'" by (cases ys) auto
  with Cons show ?case by auto
qed

lemma EncodeTimestamp_data_less:
  assumes "wf_ULID x" "wf_ULID y" "t1 < t2" "t2 < 2 ^ 48"
  shows "data (EncodeTimestamp t1 x) < data (EncodeTimestamp t2 y)"
proof -
  from assms(1) obtain a0 a1 a2 a3 a4 a5 a6 a7 a8 a9 a10 a11 a12 a13 a14 a15
    where dx: "data x = [a0, a1, a2, a3, a4, a5, a6, a7, a8, a9, a10, a11, a12, a13, a14, a15]"
    unfolding wf_ULID_def by (rule len16E)
  from assms(2) obtain b0 b1 b2 b3 b4 b5 b6 b7 b8 b9 b10 b11 b12 b13 b14 b15
    where dy: "data y = [b0, b1, b2, b3, b4, b5, b6, b7, b8, b9, b10, b11, b12, b13, b14, b15]"
    unfolding wf_ULID_def by (rule len16E)
  define ts :: "int64_t \<Rightarrow> uint8_t list" where
    "ts t = [ucast (signed_drop_bit 40 t), ucast (signed_drop_bit 32 t),
       ucast (signed_drop_bit 24 t), ucast (signed_drop_bit 16 t),
       ucast (signed_drop_bit 8 t), ucast (signed_drop_bit 0 t)]" for t
  have p: "(256::nat) ^ 5 = 2 ^ 40" "(256::nat) ^ 4 = 2 ^ 32" "(256::nat) ^ 3 = 2 ^ 24"
    "(256::nat) ^ 2 = 2 ^ 16" "(256::nat) ^ 1 = 2 ^ 8" "(256::nat) ^ 0 = 2 ^ 0"
    by simp_all
  have d: "map unat (ts t) = digits 256 6 (unat t)" for t
    unfolding ts_def digits_6 p list.map by (simp only: unat_byte_ts)
  have "unat t1 < unat t2" "unat t2 < 2 ^ 48"
    using assms(3,4) by (simp_all add: word_less_nat_alt)
  then have "unat t1 mod 256 ^ 6 < unat t2 mod 256 ^ 6"
    by simp
  then have "digits 256 6 (unat t1) < digits 256 6 (unat t2)"
    by (simp only: digits_less_iff [of 256, simplified])
  then have "ts t1 < ts t2"
    by (simp only: d [symmetric] map_unat_less_iff)
  moreover have "length (ts t1) = length (ts t2)"
    by (simp add: ts_def)
  ultimately have "ts t1 @ drop 6 (data x) < ts t2 @ drop 6 (data y)"
    by (rule append_less_append [rotated])
  moreover have "data (EncodeTimestamp t x) = ts t @ drop 6 (data x)" for t
    by (simp add: EncodeTimestamp_data [OF dx] dx ts_def)
  moreover have "data (EncodeTimestamp t y) = ts t @ drop 6 (data y)" for t
    by (simp add: EncodeTimestamp_data [OF dy] dy ts_def)
  ultimately show ?thesis by simp
qed

section \<open>Sortability\<close>

lemma uint_eq_sint_nonneg:
  fixes t :: int64_t
  assumes "0 \<le> sint t"
  shows "uint t = sint t"
proof -
  have "sint t < 2 ^ 64" using sint_lt [of t] by simp
  then have "take_bit 64 (sint t) = sint t"
    using assms by (simp add: take_bit_int_eq_self)
  then show ?thesis using uint_sint [of t] by simp
qed

lemma wf_EncodeTimestamp: "wf_ULID x \<Longrightarrow> wf_ULID (EncodeTimestamp t x)"
  by (simp add: wf_ULID_def EncodeTimestamp_def)

text \<open>
  Claim C2, as amended.  For all timestamps \<open>0 \<le> t1 < t2 < 2^48\<close> and arbitrary
  entropy bytes in each identifier, the identifier stamped with \<open>t1\<close> compares
  strictly less than the one stamped with \<open>t2\<close>, under \<open>CompareULIDs\<close> and under the
  lexicographic order of the two texts produced by \<open>Marshal\<close>.  (Outside that range
  the 48-bit field wraps: the identifier of \<open>2^48\<close> sorts before that of \<open>1\<close>.)
\<close>

theorem sortable_by_timestamp:
  assumes "wf_ULID x" "wf_ULID y" "0 \<le> sint t1" "sint t1 < sint t2" "sint t2 < 2 ^ 48"
  shows "CompareULIDs (EncodeTimestamp t1 x) (EncodeTimestamp t2 y) = - 1 \<and>
         Marshal (EncodeTimestamp t1 x) < Marshal (EncodeTimestamp t2 y)"
proof -
  have u1: "uint t1 = sint t1" using assms(3) by (rule uint_eq_sint_nonneg)
  have u2: "uint t2 = sint t2" using assms(3,4) by (intro uint_eq_sint_nonneg) simp
  have lt: "t1 < t2" using assms(4) u1 u2 by (simp add: word_less_def)
  have b: "t2 < 2 ^ 48" using assms(5) u2 by (simp add: word_less_def)
  have wx: "wf_ULID (EncodeTimestamp t1 x)" and wy: "wf_ULID (EncodeTimestamp t2 y)"
    using assms(1,2) by (simp_all add: wf_EncodeTimestamp)
  have d: "data (EncodeTimestamp t1 x) < data (EncodeTimestamp t2 y)"
    using assms(1,2) lt b by (rule EncodeTimestamp_data_less)
  have "CompareULIDs (EncodeTimestamp t1 x) (EncodeTimestamp t2 y) = - 1"
    using wx wy d by (simp add: CompareULIDs_cmp_bytes cmp_bytes_lex wf_ULID_def)
  moreover have "Marshal (EncodeTimestamp t1 x) < Marshal (EncodeTimestamp t2 y)"
    using d by (simp only: Marshal_less_iff [OF wx wy])
  ultimately show ?thesis by simp
qed

theorem sortable_by_timestamp_witness:
  "wf_ULID \<lparr>data = [0, 0, 0, 0, 0, 0, 255, 255, 255, 255, 255, 255, 255, 255, 255, 255]\<rparr> \<and>
   wf_ULID ULID_zero \<and>
   0 \<le> sint (0x15D8E5C3600 :: int64_t) \<and>
   sint (0x15D8E5C3600 :: int64_t) < sint (0x15D8E5C3601 :: int64_t) \<and>
   sint (0x15D8E5C3601 :: int64_t) < 2 ^ 48 \<and>
   CompareULIDs
     (EncodeTimestamp 0x15D8E5C3600
        \<lparr>data = [0, 0, 0, 0, 0, 0, 255, 255, 255, 255, 255, 255, 255, 255, 255, 255]\<rparr>)
     (EncodeTimestamp 0x15D8E5C3601 ULID_zero) = - 1 \<and>
   Marshal (EncodeTimestamp 0x15D8E5C3600
        \<lparr>data = [0, 0, 0, 0, 0, 0, 255, 255, 255, 255, 255, 255, 255, 255, 255, 255]\<rparr>)
     < Marshal (EncodeTimestamp 0x15D8E5C3601 ULID_zero)"
  using sortable_by_timestamp
    [of "\<lparr>data = [0, 0, 0, 0, 0, 0, 255, 255, 255, 255, 255, 255, 255, 255, 255, 255]\<rparr>"
        ULID_zero "0x15D8E5C3600" "0x15D8E5C3601"]
  by (simp add: wf_ULID_def ULID_zero_def)

theorem sortable_by_timestamp_counterexample:
  "sint (1 :: int64_t) < sint (0x1000000000000 :: int64_t) \<and>
   CompareULIDs (EncodeTimestamp 1 ULID_zero) (EncodeTimestamp 0x1000000000000 ULID_zero) = 1 \<and>
   Marshal (EncodeTimestamp 0x1000000000000 ULID_zero) < Marshal (EncodeTimestamp 1 ULID_zero)"
proof -
  have a: "EncodeTimestamp 1 ULID_zero = \<lparr>data = [0, 0, 0, 0, 0, 1, 0, 0, 0, 0, 0, 0, 0, 0, 0, 0]\<rparr>"
    by (simp add: EncodeTimestamp_def ULID_zero_def)
  have "(ucast (signed_drop_bit 40 (0x1000000000000 :: int64_t)) :: uint8_t) = 0"
    "(ucast (signed_drop_bit 32 (0x1000000000000 :: int64_t)) :: uint8_t) = 0"
    "(ucast (signed_drop_bit 24 (0x1000000000000 :: int64_t)) :: uint8_t) = 0"
    "(ucast (signed_drop_bit 16 (0x1000000000000 :: int64_t)) :: uint8_t) = 0"
    "(ucast (signed_drop_bit 8 (0x1000000000000 :: int64_t)) :: uint8_t) = 0"
    "(ucast (0x1000000000000 :: int64_t) :: uint8_t) = 0"
    by code_simp+
  then have b: "EncodeTimestamp 0x1000000000000 ULID_zero = ULID_zero"
    by (simp add: EncodeTimestamp_def ULID_zero_def)
  have "Marshal ULID_zero = ''00000000000000000000000000''"
    by (simp add: Marshal_def MarshalTo_def MarshalTo_index_def ULID_zero_def Encoding_def)
  moreover have "Marshal \<lparr>data = [0, 0, 0, 0, 0, 1, 0, 0, 0, 0, 0, 0, 0, 0, 0, 0]\<rparr>
      = ''00000000010000000000000000''"
    by (simp add: Marshal_def MarshalTo_def MarshalTo_index_def Encoding_def)
  moreover have "CompareULIDs \<lparr>data = [0, 0, 0, 0, 0, 1, 0, 0, 0, 0, 0, 0, 0, 0, 0, 0]\<rparr> ULID_zero = 1"
    by (simp add: CompareULIDs_def cmp_cell_def ULID_zero_def)
  ultimately show ?thesis
    unfolding a b by (simp add: less_char_def)
qed

section \<open>The two representations\<close>

lemma UnmarshalFrom_exprs:
  "data (UnmarshalFrom str ULID_zero) = map ucast (unmarshal_exprs (dec_at str))"
  by (simp add: UnmarshalFrom_def ULID_zero_def unmarshal_exprs_def Let_def)

lemma UnmarshalFrom_u128_exprs:
  "UnmarshalFrom_u128 str = accumulate_u128 0 (unmarshal_exprs (dec_at str))"
  by (simp add: UnmarshalFrom_u128_def unmarshal_exprs_def Let_def)

lemma bit_cint_high: "32 \<le> n \<Longrightarrow> bit (w::cint) n = False"
  by (auto dest: bit_imp_le_length)

lemma bytes_accumulate_masked:
  "MarshalBinary_u128 (accumulate_u128 0 (unmarshal_exprs (\<lambda>i. x i AND mask 5)))
     = map ucast (unmarshal_exprs (\<lambda>i. x i AND mask 5))"
  apply (simp add: unmarshal_exprs_def MarshalBinary_u128_def del: One_nat_def)
  apply (intro conjI)
  apply (rule u8_eqI; simp add: bit_simps bit_cint_high One_nat_def [symmetric] del: One_nat_def)+
  done

lemma dec_at_valid:
  assumes "valid_text str" "i < 26"
  shows "dec_at str i < 32"
proof -
  from assms have "str ! i \<in> set Encoding"
    by (simp add: valid_text_def list_all_length)
  then obtain j where j: "j < length Encoding" "str ! i = Encoding ! j"
    by (auto simp add: in_set_conv_nth)
  then have j32: "j < 32" by (simp add: Encoding_def)
  let ?e = "of_nat j :: cint"
  have u: "unat ?e = j" using j32 by (simp add: unat_of_nat)
  then have e: "?e < 32" using j32 by (simp add: word_less_nat_alt)
  from dec_enc [OF e] have "dec_at str i = ?e"
    using j u by (simp add: dec_at_def)
  with e show ?thesis by simp
qed

lemma unmarshal_exprs_valid:
  assumes "valid_text str"
  shows "unmarshal_exprs (dec_at str) = unmarshal_exprs (\<lambda>i. dec_at str i AND mask 5)"
proof -
  have "dec_at str i AND mask 5 = dec_at str i" if "i < 26" for i
    using dec_at_valid [OF assms that] by (simp add: less_mask_eq)
  then show ?thesis
    by (simp add: unmarshal_exprs_def)
qed

lemma Unmarshal_u128_bytes:
  assumes "valid_text str"
  shows "MarshalBinary_u128 (Unmarshal_u128 str) = data (Unmarshal str)"
  unfolding Unmarshal_u128_def Unmarshal_def UnmarshalFrom_exprs UnmarshalFrom_u128_exprs
    unmarshal_exprs_valid [OF assms]
  by (rule bytes_accumulate_masked)

lemma MarshalTo_index_u128_windows:
  "MarshalTo_index_u128 u = windows (MarshalBinary_u128 u)"
  unfolding MarshalTo_index_u128_def windows_def w_defs Let_def MarshalBinary_u128_def
  by simp

lemma mask80: "push_bit 80 (1 :: uint128_t) - 1 = mask 80"
  by (simp add: mask_eq_exp_minus_1)

lemma EncodeTimestamp_u128_bytes:
  "MarshalBinary_u128 (EncodeTimestamp_u128 t u) =
     [ucast (signed_drop_bit 40 t), ucast (signed_drop_bit 32 t), ucast (signed_drop_bit 24 t),
      ucast (signed_drop_bit 16 t), ucast (signed_drop_bit 8 t), ucast t]
     @ drop 6 (MarshalBinary_u128 u)"
  unfolding EncodeTimestamp_u128_def Let_def mask80
  apply (simp add: MarshalBinary_u128_def del: One_nat_def)
  apply (intro conjI)
  apply (rule u8_eqI; simp add: bit_simps bit_u8_high One_nat_def [symmetric] del: One_nat_def)+
  done

lemma EncodeTimestamp_agree:
  "MarshalBinary_u128 (EncodeTimestamp_u128 t u) =
     data (EncodeTimestamp t \<lparr>data = MarshalBinary_u128 u\<rparr>)"
  unfolding EncodeTimestamp_u128_bytes
  by (simp add: EncodeTimestamp_def MarshalBinary_u128_def)

lemma EncodeEntropy_u128_draw:
  "EncodeEntropy_u128 rng s u =
     (UnmarshalBinaryFrom_u128 (take 6 (MarshalBinary_u128 u) @ fst (draw rng 10 s)),
      snd (draw rng 10 s))"
proof -
  have "MarshalBinary_u128 (push_bit 80 (drop_bit 80 u) OR
       (push_bit 72 (ucast b6) OR push_bit 64 (ucast b7) OR push_bit 56 (ucast b8) OR
        push_bit 48 (ucast b9) OR push_bit 40 (ucast b10) OR push_bit 32 (ucast b11) OR
        push_bit 24 (ucast b12) OR push_bit 16 (ucast b13) OR push_bit 8 (ucast b14) OR
        ucast b15))
     = take 6 (MarshalBinary_u128 u) @ [b6, b7, b8, b9, b10, b11, b12, b13, b14, b15]"
    for b6 b7 b8 b9 b10 b11 b12 b13 b14 b15 :: uint8_t
    apply (simp add: MarshalBinary_u128_def del: One_nat_def)
    apply (intro conjI)
    apply (rule u8_eqI; simp add: bit_simps bit_u8_high One_nat_def [symmetric] del: One_nat_def)+
    done
  then have "push_bit 80 (drop_bit 80 u) OR
       (push_bit 72 (ucast b6) OR push_bit 64 (ucast b7) OR push_bit 56 (ucast b8) OR
        push_bit 48 (ucast b9) OR push_bit 40 (ucast b10) OR push_bit 32 (ucast b11) OR
        push_bit 24 (ucast b12) OR push_bit 16 (ucast b13) OR push_bit 8 (ucast b14) OR
        ucast b15)
     = UnmarshalBinaryFrom_u128
         (take 6 (MarshalBinary_u128 u) @ [b6, b7, b8, b9, b10, b11, b12, b13, b14, b15])"
    for b6 b7 b8 b9 b10 b11 b12 b13 b14 b15 :: uint8_t
    by (metis UnmarshalBinary_MarshalBinary_u128)
  then show ?thesis
    unfolding draw_10 EncodeEntropy_u128_def
    by (simp add: or.assoc split: prod.splits)
qed

lemma EncodeEntropy_agree:
  "EncodeEntropy rng s \<lparr>data = MarshalBinary_u128 u\<rparr> =
     (\<lparr>data = MarshalBinary_u128 (fst (EncodeEntropy_u128 rng s u))\<rparr>,
      snd (EncodeEntropy_u128 rng s u))"
proof -
  have w: "wf_ULID \<lparr>data = MarshalBinary_u128 u\<rparr>"
    by (simp add: wf_ULID_def length_MarshalBinary_u128)
  have "length (take 6 (MarshalBinary_u128 u) @ fst (draw rng 10 s)) = 16"
    by (simp add: length_MarshalBinary_u128 length_draw)
  then show ?thesis
    by (simp add: EncodeEntropy_draw [OF w] EncodeEntropy_u128_draw
        MarshalBinary_UnmarshalBinary_u128)
qed

text \<open>
  Claim C3, as amended.  Relate a scalar to its big-endian 16 bytes
  (\<open>MarshalBinary_u128\<close>, a bijection onto the 16-byte arrays).  For every identifier
  value the two versions of marshal-to-text, marshal-to-binary, unmarshal-from-binary,
  compare and timestamp extraction give the same text, bytes, result and timestamp, and
  so do the two mutators (encode timestamp, encode entropy); the two versions of
  unmarshal-from-text give the same identifier for every text of 26 characters of the
  alphabet.  (On a text with a character outside the alphabet they
  differ: the scalar version lets the bits above the low 8 of an \<open>int\<close> expression
  reach the byte before.)
\<close>

theorem representations_agree:
  "Marshal_u128 u = Marshal \<lparr>data = MarshalBinary_u128 u\<rparr> \<and>
   MarshalBinary_u128 u = MarshalBinary \<lparr>data = MarshalBinary_u128 u\<rparr> \<and>
   (valid_text str \<longrightarrow> MarshalBinary_u128 (Unmarshal_u128 str) = data (Unmarshal str)) \<and>
   (length b = 16 \<longrightarrow>
      MarshalBinary_u128 (UnmarshalBinary_u128 b) = data (UnmarshalBinary b)) \<and>
   CompareULIDs_u128 u v =
     CompareULIDs \<lparr>data = MarshalBinary_u128 u\<rparr> \<lparr>data = MarshalBinary_u128 v\<rparr> \<and>
   Time_u128 u = Time \<lparr>data = MarshalBinary_u128 u\<rparr> \<and>
   UnmarshalBinary_u128 (MarshalBinary_u128 u) = u \<and>
   MarshalBinary_u128 (EncodeTimestamp_u128 t u) =
     data (EncodeTimestamp t \<lparr>data = MarshalBinary_u128 u\<rparr>) \<and>
   EncodeEntropy rng s \<lparr>data = MarshalBinary_u128 u\<rparr> =
     (\<lparr>data = MarshalBinary_u128 (fst (EncodeEntropy_u128 rng s u))\<rparr>,
      snd (EncodeEntropy_u128 rng s u))"
proof -
  have 1: "Marshal_u128 u = Marshal \<lparr>data = MarshalBinary_u128 u\<rparr>"
    by (simp add: Marshal_u128_def MarshalTo_u128_def Marshal_def MarshalTo_def
        MarshalTo_index_windows MarshalTo_index_u128_windows)
  have 2: "MarshalBinary_u128 u = MarshalBinary \<lparr>data = MarshalBinary_u128 u\<rparr>"
    by (simp add: MarshalBinary_def MarshalBinary_u128_def)
  have 3: "MarshalBinary_u128 (Unmarshal_u128 str) = data (Unmarshal str)" if "valid_text str"
    using that by (rule Unmarshal_u128_bytes)
  have 4: "MarshalBinary_u128 (UnmarshalBinary_u128 b) = data (UnmarshalBinary b)"
    if "length b = 16"
  proof -
    from that obtain a0 a1 a2 a3 a4 a5 a6 a7 a8 a9 a10 a11 a12 a13 a14 a15
      where b: "b = [a0, a1, a2, a3, a4, a5, a6, a7, a8, a9, a10, a11, a12, a13, a14, a15]"
      by (rule len16E)
    have "data (UnmarshalBinary b) = b"
      by (simp add: UnmarshalBinary_def UnmarshalBinaryFrom_def ULID_zero_def b)
    then show ?thesis
      using that by (simp add: UnmarshalBinary_u128_def MarshalBinary_UnmarshalBinary_u128)
  qed
  have 5: "CompareULIDs_u128 u v =
     CompareULIDs \<lparr>data = MarshalBinary_u128 u\<rparr> \<lparr>data = MarshalBinary_u128 v\<rparr>"
    by (simp add: CompareULIDs_u128_cmp_bytes CompareULIDs_cmp_bytes wf_ULID_def
        length_MarshalBinary_u128)
  have 6: "Time_u128 u = Time \<lparr>data = MarshalBinary_u128 u\<rparr>"
    by (simp add: Time_u128_def Time_def MarshalBinary_u128_def)
  have 7: "UnmarshalBinary_u128 (MarshalBinary_u128 u) = u"
    by (simp add: UnmarshalBinary_u128_def UnmarshalBinary_MarshalBinary_u128)
  note 8 = EncodeTimestamp_agree [of t u] and 9 = EncodeEntropy_agree [of rng s u]
  from 1 2 3 4 5 6 7 8 9 show ?thesis by blast
qed

theorem representations_agree_witness:
  "valid_text ''01ARZ3NDEKTSV4RRFFQ69G5FAV'' \<and>
   MarshalBinary_u128 (Unmarshal_u128 ''01ARZ3NDEKTSV4RRFFQ69G5FAV'')
     = data (Unmarshal ''01ARZ3NDEKTSV4RRFFQ69G5FAV'') \<and>
   length [1, 86, 62, 58, 181, 211, 214, 118, 76, 97, 239, 185, 147, 2, 189, 91 :: uint8_t] = 16 \<and>
   MarshalBinary_u128 (UnmarshalBinary_u128
       [1, 86, 62, 58, 181, 211, 214, 118, 76, 97, 239, 185, 147, 2, 189, 91])
     = data (UnmarshalBinary [1, 86, 62, 58, 181, 211, 214, 118, 76, 97, 239, 185, 147, 2, 189, 91])"
proof -
  have v: "valid_text ''01ARZ3NDEKTSV4RRFFQ69G5FAV''"
    by (simp add: valid_text_def Encoding_def)
  have l: "length [1, 86, 62, 58, 181, 211, 214, 118, 76, 97, 239, 185, 147, 2, 189, 91 :: uint8_t] = 16"
    by simp
  from representations_agree [of 0 "''01ARZ3NDEKTSV4RRFFQ69G5FAV''"
      "[1, 86, 62, 58, 181, 211, 214, 118, 76, 97, 239, 185, 147, 2, 189, 91]" 0 0
      "\<lambda>n::nat. (0, n)" 0] v l
  show ?thesis by blast
qed

theorem representations_agree_counterexample:
  "length ''00a00000000000000000000000'' = 26 \<and>
   MarshalBinary_u128 (Unmarshal_u128 ''00a00000000000000000000000'')
     = [7, 248, 0, 0, 0, 0, 0, 0, 0, 0, 0, 0, 0, 0, 0, 0] \<and>
   MarshalBinary (Unmarshal ''00a00000000000000000000000'')
     = [0, 248, 0, 0, 0, 0, 0, 0, 0, 0, 0, 0, 0, 0, 0, 0]"
proof -
  have a: "dec_at ''00a00000000000000000000000'' 2 = 255"
    by (simp add: dec_at_def dec_def)
  have z: "dec_at ''00a00000000000000000000000'' i = 0" if "i \<noteq> 2" "i < 26" for i
  proof -
    have "\<forall>i \<in> set [0..<26]. i \<noteq> 2 \<longrightarrow> dec ! of_char (''00a00000000000000000000000'' ! i) = 0"
      unfolding dec_def by code_simp
    with that show ?thesis by (simp add: dec_at_def)
  qed
  have 1: "MarshalBinary_u128 (Unmarshal_u128 ''00a00000000000000000000000'')
     = [7, 248, 0, 0, 0, 0, 0, 0, 0, 0, 0, 0, 0, 0, 0, 0]"
    unfolding Unmarshal_u128_def UnmarshalFrom_u128_def Let_def
    by (simp add: a z MarshalBinary_u128_def)
  have 2: "MarshalBinary (Unmarshal ''00a00000000000000000000000'')
     = [0, 248, 0, 0, 0, 0, 0, 0, 0, 0, 0, 0, 0, 0, 0, 0]"
    unfolding Unmarshal_def UnmarshalFrom_def Let_def
    by (simp add: a z MarshalBinary_def ULID_zero_def)
  from 1 2 show ?thesis by simp
qed

section \<open>Decoding text outside the alphabet\<close>

lemma dec_sentinel_7bit:
  "\<forall>n \<in> set [0..<128]. (dec ! n = 255) = (char_of n \<notin> set Encoding)"
  unfolding dec_def Encoding_def by code_simp

lemma dec_sentinel:
  assumes "of_char c < (128::nat)"
  shows "dec ! of_char c = 255 \<longleftrightarrow> c \<notin> set Encoding"
  using dec_sentinel_7bit assms by (auto dest!: bspec [where x = "of_char c"])

lemma less26E:
  assumes "(pos::nat) < 26"
  obtains "pos = 0" | "pos = 1" | "pos = 2" | "pos = 3" | "pos = 4" | "pos = 5" | "pos = 6" | "pos = 7"
    | "pos = 8" | "pos = 9" | "pos = 10" | "pos = 11" | "pos = 12" | "pos = 13" | "pos = 14" | "pos = 15"
    | "pos = 16" | "pos = 17" | "pos = 18" | "pos = 19" | "pos = 20" | "pos = 21" | "pos = 22" | "pos = 23"
    | "pos = 24" | "pos = 25"
proof -
  from assms have "pos = 0 \<or> pos = 1 \<or> pos = 2 \<or> pos = 3 \<or> pos = 4 \<or> pos = 5 \<or> pos = 6 \<or> pos = 7
    \<or> pos = 8 \<or> pos = 9 \<or> pos = 10 \<or> pos = 11 \<or> pos = 12 \<or> pos = 13 \<or> pos = 14 \<or> pos = 15
    \<or> pos = 16 \<or> pos = 17 \<or> pos = 18 \<or> pos = 19 \<or> pos = 20 \<or> pos = 21 \<or> pos = 22 \<or> pos = 23
    \<or> pos = 24 \<or> pos = 25"
    by presburger
  with that show ?thesis by blast
qed

lemma window_sentinel:
  assumes "i < 26" "c i = mask 8"
  shows "windows (map ucast (unmarshal_exprs c)) ! i = (if i = 0 then mask 3 else mask 5)"
  using assms
  apply (elim less26E)
  apply (simp_all add: unmarshal_exprs_def windows_def del: One_nat_def)
  unfolding w_defs and_consts
  apply (rule bit_word_eqI, erule bit5E;
      auto simp add: bit_simps bit_cint_high One_nat_def [symmetric] simp del: One_nat_def)+
  done

lemma window_sentinel_u128:
  assumes "i < 26" "c i = mask 8"
  shows "windows (MarshalBinary_u128 (accumulate_u128 0 (unmarshal_exprs c))) ! i
     = (if i = 0 then mask 3 else mask 5)"
  using assms
  unfolding windows_u128
  apply (elim less26E)
  apply (simp_all add: unmarshal_exprs_def slice5_def del: One_nat_def)
  apply (rule bit_word_eqI, erule bit5E;
      simp add: bit_simps bit_cint_high bit_u128_high One_nat_def [symmetric] del: One_nat_def)+
  done

lemma sentinel_at:
  assumes "ascii_text str" "i < 26" "str ! i \<notin> set Encoding"
  shows "dec_at str i = mask 8"
proof -
  from assms(1,2) have "of_char (str ! i) < (128::nat)"
    by (simp add: ascii_text_def list_all_length)
  with assms(3) have "dec ! of_char (str ! i) = 255"
    by (simp add: dec_sentinel)
  then show ?thesis
    by (simp add: dec_at_def mask_eq_exp_minus_1)
qed

lemma Encoding_7_31: "Encoding ! 7 = CHR ''7''" "Encoding ! 31 = CHR ''Z''"
  by (simp_all add: Encoding_def)

text \<open>
  Claim C5, as amended.  Take a text of 26 characters with codes below 128 that has a
  character outside the alphabet (a lowercase letter, say) at position \<open>i\<close>.  The
  decode table gives the sentinel \<open>0xFF\<close> for that character (as it does for exactly
  the 7-bit characters outside the alphabet), but decoding makes no check against it
  and does not fail: both versions return an identifier, and in it the low bits of the
  sentinel stand at the place of that character, so that encoding the identifier again
  gives \<open>Z\<close> (index 31) at position \<open>i\<close>, or \<open>7\<close> at position 0, which has 3 bits
  only: a text of the alphabet, different from the input.
\<close>

theorem UnmarshalFrom_unchecked:
  assumes "ascii_text str" "i < 26" "str ! i \<notin> set Encoding"
  shows "dec_at str i = 255 \<and>
         Marshal (Unmarshal str) ! i = (if i = 0 then CHR ''7'' else CHR ''Z'') \<and>
         Marshal_u128 (Unmarshal_u128 str) ! i = (if i = 0 then CHR ''7'' else CHR ''Z'') \<and>
         Marshal (Unmarshal str) \<noteq> str \<and>
         Marshal_u128 (Unmarshal_u128 str) \<noteq> str \<and>
         (of_char c < (128::nat) \<longrightarrow> (dec ! of_char c = 255 \<longleftrightarrow> c \<notin> set Encoding))"
proof -
  have s: "dec_at str i = mask 8"
    using assms by (rule sentinel_at)
  then have 1: "dec_at str i = 255"
    by (simp add: mask_eq_exp_minus_1)
  have u: "unat (mask 3 :: cint) = 7" "unat (mask 5 :: cint) = 31"
    by (simp_all add: mask_eq_exp_minus_1)
  have "windows (data (Unmarshal str)) ! i = (if i = 0 then mask 3 else mask 5)"
    unfolding Unmarshal_def UnmarshalFrom_exprs using assms(2) s by (rule window_sentinel)
  then have 2: "Marshal (Unmarshal str) ! i = (if i = 0 then CHR ''7'' else CHR ''Z'')"
    using assms(2)
    by (simp add: Marshal_def MarshalTo_def MarshalTo_index_windows length_windows u
        Encoding_7_31)
  have "windows (MarshalBinary_u128 (Unmarshal_u128 str)) ! i
      = (if i = 0 then mask 3 else mask 5)"
    unfolding Unmarshal_u128_def UnmarshalFrom_u128_exprs
    using assms(2) s by (rule window_sentinel_u128)
  then have 3: "Marshal_u128 (Unmarshal_u128 str) ! i = (if i = 0 then CHR ''7'' else CHR ''Z'')"
    using assms(2)
    by (simp add: Marshal_u128_def MarshalTo_u128_def MarshalTo_index_u128_windows
        length_windows u Encoding_7_31)
  have e: "(if i = 0 then CHR ''7'' else CHR ''Z'') \<in> set Encoding"
    by (simp add: Encoding_def)
  have 4: "Marshal (Unmarshal str) \<noteq> str"
    using 2 e assms(3) by auto
  have 5: "Marshal_u128 (Unmarshal_u128 str) \<noteq> str"
    using 3 e assms(3) by auto
  have 6: "dec ! of_char c = 255 \<longleftrightarrow> c \<notin> set Encoding" if "of_char c < (128::nat)"
    using that by (rule dec_sentinel)
  from 1 2 3 4 5 6 show ?thesis by blast
qed

theorem UnmarshalFrom_unchecked_witness:
  "ascii_text ''0000000000000000000000000a'' \<and> (25::nat) < 26 \<and>
   ''0000000000000000000000000a'' ! 25 \<notin> set Encoding \<and>
   dec_at ''0000000000000000000000000a'' 25 = 255 \<and>
   Marshal (Unmarshal ''0000000000000000000000000a'') ! 25 = CHR ''Z'' \<and>
   Marshal_u128 (Unmarshal_u128 ''0000000000000000000000000a'') ! 25 = CHR ''Z'' \<and>
   ascii_text ''a0000000000000000000000000'' \<and>
   ''a0000000000000000000000000'' ! 0 \<notin> set Encoding \<and>
   Marshal (Unmarshal ''a0000000000000000000000000'') ! 0 = CHR ''7'' \<and>
   Marshal_u128 (Unmarshal_u128 ''a0000000000000000000000000'') ! 0 = CHR ''7''"
proof -
  have a: "ascii_text ''0000000000000000000000000a''"
    "''0000000000000000000000000a'' ! 25 \<notin> set Encoding"
    by (simp_all add: ascii_text_def Encoding_def)
  have b: "ascii_text ''a0000000000000000000000000''"
    "''a0000000000000000000000000'' ! 0 \<notin> set Encoding"
    by (simp_all add: ascii_text_def Encoding_def)
  from UnmarshalFrom_unchecked [OF a(1) _ a(2), of "CHR ''a''"]
    UnmarshalFrom_unchecked [OF b(1) _ b(2), of "CHR ''a''"] a b
  show ?thesis by simp
qed

theorem UnmarshalFrom_unchecked_counterexample:
  "length ''0000000000000000000000000a'' = 26 \<and>
   CHR ''a'' \<in> set ''0000000000000000000000000a'' \<and>
   CHR ''a'' \<notin> set Encoding \<and>
   Unmarshal ''0000000000000000000000000a''
     = \<lparr>data = [0, 0, 0, 0, 0, 0, 0, 0, 0, 0, 0, 0, 0, 0, 0, 255]\<rparr> \<and>
   Unmarshal ''0000000000000000000000007Z''
     = \<lparr>data = [0, 0, 0, 0, 0, 0, 0, 0, 0, 0, 0, 0, 0, 0, 0, 255]\<rparr>"
proof -
  have a: "\<forall>i \<in> set [0..<26]. dec_at ''0000000000000000000000000a'' i = (if i = 25 then 255 else 0)"
    unfolding dec_at_def dec_def by code_simp
  have b: "\<forall>i \<in> set [0..<26]. dec_at ''0000000000000000000000007Z'' i
      = (if i = 25 then 31 else if i = 24 then 7 else 0)"
    unfolding dec_at_def dec_def by code_simp
  have 1: "Unmarshal ''0000000000000000000000000a''
     = \<lparr>data = [0, 0, 0, 0, 0, 0, 0, 0, 0, 0, 0, 0, 0, 0, 0, 255]\<rparr>"
    unfolding Unmarshal_def UnmarshalFrom_def Let_def using a
    by (simp add: ULID_zero_def)
  have 2: "Unmarshal ''0000000000000000000000007Z''
     = \<lparr>data = [0, 0, 0, 0, 0, 0, 0, 0, 0, 0, 0, 0, 0, 0, 0, 255]\<rparr>"
    unfolding Unmarshal_def UnmarshalFrom_def Let_def using b
    by (simp add: ULID_zero_def)
  from 1 2 show ?thesis by (simp add: Encoding_def)
qed

section \<open>Identifiers at a given time\<close>

lemma cpp_bytes_to_timestamp_take6:
  assumes "length b = 16"
  shows "cpp_bytes_to_timestamp (take 6 b @ r) = cpp_bytes_to_timestamp b"
proof -
  from assms obtain a0 a1 a2 a3 a4 a5 a6 a7 a8 a9 a10 a11 a12 a13 a14 a15
    where b: "b = [a0, a1, a2, a3, a4, a5, a6, a7, a8, a9, a10, a11, a12, a13, a14, a15]"
    by (rule len16E)
  show ?thesis by (simp add: b cpp_bytes_to_timestamp_def)
qed

lemma MarshalBinary_wf: "wf_ULID x \<Longrightarrow> MarshalBinary x = data x"
proof -
  assume "wf_ULID x"
  then obtain a0 a1 a2 a3 a4 a5 a6 a7 a8 a9 a10 a11 a12 a13 a14 a15
    where dx: "data x = [a0, a1, a2, a3, a4, a5, a6, a7, a8, a9, a10, a11, a12, a13, a14, a15]"
    unfolding wf_ULID_def by (rule len16E)
  show ?thesis by (simp add: MarshalBinary_def dx)
qed

lemma timestamp_after_entropy:
  "cpp_bytes_to_timestamp (MarshalBinary (fst (EncodeEntropy rng s (EncodeTimestamp t ULID_zero))))
     = take_bit 48 t"
proof -
  let ?x = "EncodeTimestamp t ULID_zero"
  have w0: "wf_ULID ULID_zero" by (simp add: wf_ULID_def ULID_zero_def)
  then have w: "wf_ULID ?x" by (rule wf_EncodeTimestamp)
  let ?y = "?x\<lparr>data := take 6 (data ?x) @ fst (draw rng 10 s)\<rparr>"
  have wy: "wf_ULID ?y" using w by (simp add: wf_ULID_def length_draw)
  have "cpp_bytes_to_timestamp (MarshalBinary ?y) = cpp_bytes_to_timestamp (data ?x)"
    using w by (simp add: MarshalBinary_wf [OF wy] cpp_bytes_to_timestamp_take6 wf_ULID_def)
  also have "\<dots> = take_bit 48 t"
    using timestamp_of_EncodeTimestamp [OF w0, of t] by (simp add: MarshalBinary_wf [OF w])
  finally show ?thesis
    by (simp add: EncodeEntropy_draw [OF w])
qed

lemma uint_take_bit_48: "uint (take_bit 48 (word_of_int k :: int64_t)) = k mod 2 ^ 48"
proof -
  have "uint (take_bit 48 (word_of_int k :: int64_t)) = take_bit 48 (take_bit 64 k)"
    unfolding unsigned_take_bit_eq by (simp add: uint_word_of_int_eq)
  also have "\<dots> = take_bit 48 k" by simp
  finally show ?thesis by (simp add: take_bit_eq_mod)
qed

text \<open>
  Claim C8, as amended.  Let \<open>p\<close> be the \<open>double\<close> product \<open>epoch_time*1000\<close>, within
  the range of \<open>int64_t\<close>.  The timestamp embedded in the identifier (binary or text
  form) is \<open>p\<close> truncated towards zero, modulo \<open>2^48\<close>.  For \<open>p \<ge> 0\<close> that is the
  floor of \<open>p\<close>; for negative non-integral \<open>p\<close> it is the ceiling, not the floor.
\<close>

theorem at_time_timestamp:
  assumes "- (2 ^ 63) \<le> rnd (epoch_time * 1000)" "rnd (epoch_time * 1000) < 2 ^ 63"
  shows "map_option (\<lambda>(b, s'). uint (cpp_bytes_to_timestamp b))
           (cpp_ulid_at_time_bytes rnd rng s epoch_time)
         = Some ((if rnd (epoch_time * 1000) < 0 then \<lceil>rnd (epoch_time * 1000)\<rceil>
                  else \<lfloor>rnd (epoch_time * 1000)\<rfloor>) mod 2 ^ 48) \<and>
         map_option (\<lambda>(txt, s'). uint (cpp_bytes_to_timestamp (MarshalBinary (Unmarshal txt))))
           (cpp_ulid_at_time rnd rng s epoch_time)
         = Some ((if rnd (epoch_time * 1000) < 0 then \<lceil>rnd (epoch_time * 1000)\<rceil>
                  else \<lfloor>rnd (epoch_time * 1000)\<rfloor>) mod 2 ^ 48) \<and>
         (0 \<le> rnd (epoch_time * 1000) \<longrightarrow>
            map_option (\<lambda>(b, s'). uint (cpp_bytes_to_timestamp b))
              (cpp_ulid_at_time_bytes rnd rng s epoch_time)
            = Some (\<lfloor>rnd (epoch_time * 1000)\<rfloor> mod 2 ^ 48))"
proof -
  let ?p = "rnd (epoch_time * 1000)"
  define k where "k = (if ?p < 0 then \<lceil>?p\<rceil> else \<lfloor>?p\<rfloor>)"
  have lo: "- (2 ^ 63) \<le> k"
    using assms(1) unfolding k_def
    by (auto simp add: le_floor_iff le_ceiling_iff intro: order_trans)
  have hi: "k < 2 ^ 63"
    using assms(2) unfolding k_def by (auto simp add: floor_less_iff ceiling_less_iff)
  have c: "double_to_int64 ?p = Some (word_of_int k)"
    using lo hi by (simp add: double_to_int64_def Let_def k_def)
  let ?x = "EncodeTimestamp (word_of_int k) ULID_zero"
  obtain y s' where e: "EncodeEntropy rng s ?x = (y, s')"
    by (cases "EncodeEntropy rng s ?x")
  have wx: "wf_ULID ?x"
    by (rule wf_EncodeTimestamp) (simp add: wf_ULID_def ULID_zero_def)
  have wy: "wf_ULID y"
    using wx e by (auto simp add: EncodeEntropy_draw wf_ULID_def length_draw)
  have t: "uint (cpp_bytes_to_timestamp (MarshalBinary y)) = k mod 2 ^ 48"
    using timestamp_after_entropy [of rng s "word_of_int k"] e
    by (simp add: uint_take_bit_48)
  have 1: "map_option (\<lambda>(b, s'). uint (cpp_bytes_to_timestamp b))
           (cpp_ulid_at_time_bytes rnd rng s epoch_time) = Some (k mod 2 ^ 48)"
    unfolding cpp_ulid_at_time_bytes_def c by (simp add: e t)
  have 2: "map_option (\<lambda>(txt, s'). uint (cpp_bytes_to_timestamp (MarshalBinary (Unmarshal txt))))
           (cpp_ulid_at_time rnd rng s epoch_time) = Some (k mod 2 ^ 48)"
    unfolding cpp_ulid_at_time_def c
    using Unmarshal_Marshal_id [OF wy] by (simp add: e t Marshal_def)
  have 3: "map_option (\<lambda>(b, s'). uint (cpp_bytes_to_timestamp b))
           (cpp_ulid_at_time_bytes rnd rng s epoch_time) = Some (\<lfloor>?p\<rfloor> mod 2 ^ 48)"
    if "0 \<le> ?p"
  proof -
    from that have "k = \<lfloor>?p\<rfloor>" by (simp add: k_def)
    with 1 show ?thesis by simp
  qed
  from 1 [unfolded k_def] 2 [unfolded k_def] 3 show ?thesis by blast
qed

theorem at_time_timestamp_witness:
  "- (2 ^ 63) \<le> (1469922850.2595 :: real) * 1000 \<and> (1469922850.2595 :: real) * 1000 < 2 ^ 63 \<and>
   map_option (\<lambda>(b, s'). uint (cpp_bytes_to_timestamp b))
     (cpp_ulid_at_time_bytes (\<lambda>v. v) (\<lambda>n::nat. (of_nat n, Suc n)) 0 1469922850.2595)
     = Some 1469922850259"
  using at_time_timestamp [of "\<lambda>v. v" "1469922850.2595" "\<lambda>n::nat. (of_nat n, Suc n)" 0]
  by simp

theorem at_time_timestamp_counterexample:
  "\<lfloor>(- 1 / 1024 :: real) * 1000\<rfloor> mod 2 ^ 48 = 2 ^ 48 - 1 \<and>
   map_option (\<lambda>(b, s'). uint (cpp_bytes_to_timestamp b))
     (cpp_ulid_at_time_bytes (\<lambda>v. v) (\<lambda>n::nat. (of_nat n, Suc n)) 0 (- 1 / 1024))
     = Some 0"
proof -
  have "double_to_int64 ((- 1 / 1024 :: real) * 1000) = Some 0"
    by (simp add: double_to_int64_def)
  moreover have "EncodeTimestamp 0 ULID_zero = ULID_zero"
    by (simp add: EncodeTimestamp_def ULID_zero_def)
  moreover have "EncodeEntropy (\<lambda>n::nat. (of_nat n, Suc n)) 0 ULID_zero
      = (\<lparr>data = [0, 0, 0, 0, 0, 0, 0, 1, 2, 3, 4, 5, 6, 7, 8, 9]\<rparr>, 10)"
    by (simp add: EncodeEntropy_def ULID_zero_def)
  ultimately show ?thesis
    by (simp add: cpp_ulid_at_time_bytes_def cpp_bytes_to_timestamp_def MarshalBinary_def
        split: prod.splits)
qed

section \<open>The C interface round trip\<close>

text \<open>\<open>_cpp_ulid_to_bytes\<close> after \<open>_cpp_bytes_to_ulid\<close> gives the 16 bytes back.\<close>

lemma cpp_bytes_ulid_round_trip:
  assumes "length b = 16"
  shows "cpp_ulid_to_bytes (cpp_bytes_to_ulid b) = b"
proof -
  from assms obtain a0 a1 a2 a3 a4 a5 a6 a7 a8 a9 a10 a11 a12 a13 a14 a15
    where b: "b = [a0, a1, a2, a3, a4, a5, a6, a7, a8, a9, a10, a11, a12, a13, a14, a15]"
    by (rule len16E)
  let ?x = "UnmarshalBinaryFrom b ULID_zero"
  have d: "data ?x = b"
    by (simp add: UnmarshalBinaryFrom_def ULID_zero_def b)
  then have w: "wf_ULID ?x"
    using assms by (simp add: wf_ULID_def)
  have "UnmarshalFrom (MarshalTo ?x) ULID_zero = ?x"
    using Unmarshal_Marshal_id [OF w] by (simp add: Unmarshal_def Marshal_def)
  then show ?thesis
    by (simp add: cpp_ulid_to_bytes_def cpp_bytes_to_ulid_def MarshalBinary_wf [OF w] d)
qed

section \<open>The same facts for the scalar version\<close>

text \<open>The text round trip and the timestamp round trip carry over to the 128-bit
  scalar through the agreement of the two versions.\<close>

lemma valid_text_Marshal: "valid_text (Marshal x)"
proof -
  have "length Encoding = 32" by (simp add: Encoding_def)
  then have "Encoding ! unat e \<in> set Encoding" if "e \<in> set (windows (data x))" for e
    using windows_lt32 [of "data x"] that by (simp add: word_less_nat_alt)
  then show ?thesis
    by (simp add: valid_text_def Marshal_def MarshalTo_def MarshalTo_index_windows
        length_windows list_all_iff)
qed

lemma Unmarshal_Marshal_u128: "Unmarshal_u128 (Marshal_u128 u) = u"
proof -
  let ?x = "\<lparr>data = MarshalBinary_u128 u\<rparr>"
  have w: "wf_ULID ?x" by (simp add: wf_ULID_def length_MarshalBinary_u128)
  have m: "Marshal_u128 u = Marshal ?x"
    by (simp add: Marshal_u128_def MarshalTo_u128_def Marshal_def MarshalTo_def
        MarshalTo_index_windows MarshalTo_index_u128_windows)
  have "MarshalBinary_u128 (Unmarshal_u128 (Marshal ?x)) = data (Unmarshal (Marshal ?x))"
    using valid_text_Marshal by (rule Unmarshal_u128_bytes)
  also have "\<dots> = MarshalBinary_u128 u"
    by (simp add: Unmarshal_Marshal_id [OF w])
  finally show ?thesis
    unfolding m by (simp only: MarshalBinary_u128_inj)
qed

lemma timestamp_of_EncodeTimestamp_u128:
  "cpp_bytes_to_timestamp (MarshalBinary_u128 (EncodeTimestamp_u128 t u)) = take_bit 48 t"
proof -
  let ?x = "\<lparr>data = MarshalBinary_u128 u\<rparr>"
  have w: "wf_ULID ?x" by (simp add: wf_ULID_def length_MarshalBinary_u128)
  have "MarshalBinary (EncodeTimestamp t ?x) = data (EncodeTimestamp t ?x)"
    using w by (intro MarshalBinary_wf wf_EncodeTimestamp)
  then show ?thesis
    using timestamp_of_EncodeTimestamp [OF w, of t] by (simp add: EncodeTimestamp_agree)
qed

end
